theory Spec2Isabelle
  imports Main
begin

section \<open>Values, errors and outcomes\<close>

text \<open>
  The loader of \<^verbatim>\<open>src/tools.ts\<close> is asynchronous TypeScript. Values that flow through it
  are opaque to it; the only distinctions the code makes are \<^verbatim>\<open>undefined\<close> (the
  "not handled" sentinel), \<^verbatim>\<open>null\<close>, strings (\<^verbatim>\<open>typeof content !== 'string'\<close>) and
  everything else (objects, identified by a reference number).
\<close>

datatype jsval = Undefined | Null | Str string | Obj nat

text \<open>
  Exceptions: the two the loader raises itself (\<^verbatim>\<open>TypeError\<close>, \<^verbatim>\<open>Error\<close>, with their
  message) and whatever a collaborator throws (\<open>Thrown n\<close>).
\<close>

datatype error = TypeError string | Error string | Thrown nat

text \<open>The settlement of a promise: \<open>Inl\<close> is a rejection, \<open>Inr\<close> a fulfilment.\<close>

type_synonym 'a outcome = "error + 'a"

text \<open>String conversion inside a template literal, \<^verbatim>\<open>`${ content }`\<close>.\<close>

fun toString :: "jsval \<Rightarrow> string" where
  "toString Undefined = ''undefined''"
| "toString Null = ''null''"
| "toString (Str s) = s"
| "toString (Obj n) = ''[object Object]''"

section \<open>The hashing utility (lines 94-97)\<close>

text \<open>
  \<^verbatim>\<open>valueList.reduce((hashInstance, val) => hashInstance.append(val ? val : ""),
       new SparkMD5()).end().slice(0, 8)\<close>

  A SparkMD5 instance accumulates the appended strings; \<^verbatim>\<open>end()\<close> is the hexadecimal MD5
  digest of everything appended. The instance is modelled by the text appended so far,
  the digest (the library spark-md5, not part of this repository) is the parameter
  \<open>md5\<close>. A string is falsy exactly when it is empty.
\<close>

definition hash :: "(string \<Rightarrow> string) \<Rightarrow> string list \<Rightarrow> string" where
  "hash md5 valueList =
     take 8 (md5 (foldl (\<lambda>hashInstance val. hashInstance @ (if val \<noteq> [] then val else []))
                        [] valueList))"

section \<open>The cache helper (lines 106-128)\<close>

text \<open>
  The cache instance is a key/value store with \<^verbatim>\<open>get\<close> and \<^verbatim>\<open>set\<close>; an absent key reads
  as \<^verbatim>\<open>undefined\<close> (\<open>None\<close>). \<^verbatim>\<open>cacheInstance\<close> itself may be missing (\<open>None\<close>).
  The value factory is described by what one invocation does: whether it called
  \<^verbatim>\<open>api.preventCache()\<close> and how its promise settles. \<^verbatim>\<open>JSON.stringify\<close> and
  \<^verbatim>\<open>JSON.parse\<close> are the parameters \<open>stringify\<close> and \<open>parse\<close>.
  The result gives the settlement of \<^verbatim>\<open>withCache\<close>'s promise, the cache instance
  afterwards and the number of times the value factory was invoked.
\<close>

type_synonym cacheStore = "string \<rightharpoonup> string"

record 'v factoryRun =
  cachePrevented :: bool
  produced :: "'v outcome"

record 'v cacheRun =
  returned :: "'v outcome"
  cacheAfter :: "cacheStore option"
  factoryCalls :: nat

definition truthy :: "string option \<Rightarrow> bool" where
  "truthy valueStr = (case valueStr of None \<Rightarrow> False | Some v \<Rightarrow> v \<noteq> [])"

text \<open>Lines 122-127: the path taken when \<^verbatim>\<open>valueStr\<close> is falsy.\<close>

definition computeAndStore ::
  "('v \<Rightarrow> string) \<Rightarrow> cacheStore \<Rightarrow> string \<Rightarrow> 'v factoryRun \<Rightarrow> 'v cacheRun" where
  "computeAndStore stringify cache hashedKey valueFactory =
     (case produced valueFactory of
        Inl ex \<Rightarrow> \<lparr>returned = Inl ex, cacheAfter = Some cache, factoryCalls = 1\<rparr>
      | Inr v \<Rightarrow>
          if \<not> cachePrevented valueFactory
          then \<lparr>returned = Inr v, cacheAfter = Some (cache(hashedKey \<mapsto> stringify v)),
                factoryCalls = 1\<rparr>
          else \<lparr>returned = Inr v, cacheAfter = Some cache, factoryCalls = 1\<rparr>)"

definition withCache ::
  "(string \<Rightarrow> string) \<Rightarrow> ('v \<Rightarrow> string) \<Rightarrow> (string \<Rightarrow> 'v outcome) \<Rightarrow>
   cacheStore option \<Rightarrow> string list \<Rightarrow> 'v factoryRun \<Rightarrow> 'v cacheRun" where
  "withCache md5 stringify parse cacheInstance key valueFactory =
     (case cacheInstance of
        None \<Rightarrow> \<lparr>returned = produced valueFactory, cacheAfter = None, factoryCalls = 1\<rparr>
      | Some cache \<Rightarrow>
          (let hashedKey = hash md5 key
           in case cache hashedKey of
                None \<Rightarrow> computeAndStore stringify cache hashedKey valueFactory
              | Some valueStr \<Rightarrow>
                  if truthy (Some valueStr)
                  then \<lparr>returned = parse valueStr, cacheAfter = Some cache, factoryCalls = 0\<rparr>
                  else computeAndStore stringify cache hashedKey valueFactory))"

section \<open>The module cache and the tasks of the loader\<close>

text \<open>
  \<^verbatim>\<open>options.getResource(pathCx, options)\<close> yields \<^verbatim>\<open>{ id, path, getContent }\<close>. The deferred
  \<^verbatim>\<open>getContent()\<close> is represented by the settlement of the promise it returns when invoked:
  \<^verbatim>\<open>{ content, extname }\<close> or a rejection.
\<close>

record pathCx =
  refPath :: string
  relPath :: string

record resource =
  res_id :: string
  res_path :: string
  getContent :: "(jsval \<times> string) outcome"

text \<open>
  A module cache entry is an instance of the class \<^verbatim>\<open>Loading\<close> (lines 133-141), holding a
  promise, or the module's export. A promise is identified by the number of the
  asynchronous task that settles it.
\<close>

datatype entry = Loading nat | Value jsval

text \<open>
  The collaborators. The first five are fields of \<^verbatim>\<open>options\<close>; \<^verbatim>\<open>compiledCache\<close> and
  \<^verbatim>\<open>log\<close> say whether the field is set (the contents of the compiled cache are part of the
  state, and so is \<^verbatim>\<open>options.moduleCache\<close>). The others are what the module imports (\<^verbatim>\<open>process.env.VERSION\<close>, spark-md5,
  \<^verbatim>\<open>createSFCModule\<close>, Babel, \<^verbatim>\<open>JSON\<close>) and, as \<open>execute\<close>, the call
  \<^verbatim>\<open>Function('exports', 'require', 'module', ..., source).call(...)\<close> of line 324 followed by
  reading \<^verbatim>\<open>module.exports\<close>: what the transformed code of a module leaves as its export
  (or throws), given its \<^verbatim>\<open>__filename\<close> and its \<^verbatim>\<open>require\<close> function.
  Each collaborator is a function of its arguments (section 6 of the specification:
  deterministic within a session) and does not itself touch the module cache.
  A call of \<^verbatim>\<open>import__\<close> by module code is a call of \<^verbatim>\<open>loadModuleInternal\<close>, an event
  \<open>Call\<close> below.
\<close>

record options =
  getResource :: "pathCx \<Rightarrow> error + resource"
  loadModule :: "(string \<Rightarrow> jsval outcome) option"
  handleModule :: "(string \<Rightarrow> string \<Rightarrow> string \<Rightarrow> jsval outcome) option"
  compiledCache :: bool
  log :: bool
  version :: string
  md5 :: "string \<Rightarrow> string"
  createSFCModule :: "string \<Rightarrow> string \<Rightarrow> jsval outcome"
  babel_parse :: "string \<Rightarrow> bool \<Rightarrow> string \<Rightarrow> error + nat"
  parseDeps :: "nat \<Rightarrow> string list"
  babel_transformFromAstAsync :: "nat \<Rightarrow> string \<Rightarrow> string outcome"
  JSON_stringify :: "string list \<times> string \<Rightarrow> string"
  JSON_parse :: "string \<Rightarrow> (string list \<times> string) outcome"
  execute :: "string \<Rightarrow> string \<Rightarrow> (string \<Rightarrow> error + entry) \<Rightarrow> jsval outcome"

text \<open>
  A task is one invocation of an asynchronous function: a call of
  \<^verbatim>\<open>loadModuleInternal\<close> (\<open>Request\<close>) or the asynchronous function expression of lines
  260-288 that loads one resource (\<open>LoadBody\<close>). It is suspended at an \<^verbatim>\<open>await\<close>
  (\<open>Running\<close>, with what it awaits) or its promise is settled. What an awaited call of a
  collaborator will deliver is fixed when the call is made and kept in the continuation.
  The functions awaited inside the body (\<^verbatim>\<open>defaultHandleModule\<close>, \<^verbatim>\<open>createJSModule\<close>,
  \<^verbatim>\<open>withCache\<close>, \<^verbatim>\<open>transformJSCode\<close>, \<^verbatim>\<open>loadDeps\<close>) are inlined: the body is suspended
  at the innermost \<^verbatim>\<open>await\<close>.
\<close>

datatype cont =
    AwaitLoading nat
      \<comment> \<open>lines 254 and 290: \<^verbatim>\<open>await moduleCache[id].promise\<close>\<close>
  | AwaitLoadModule "jsval outcome"
      \<comment> \<open>line 264\<close>
  | AwaitGetContent "(jsval \<times> string) outcome"
      \<comment> \<open>line 269\<close>
  | AwaitHandleModule string string "jsval outcome"
      \<comment> \<open>line 278: extname, content\<close>
  | AwaitCreateSFCModule string "jsval outcome"
      \<comment> \<open>lines 281, 363: extname\<close>
  | AwaitCacheGet string string bool string "string option"
      \<comment> \<open>line 118: extname, source, moduleSourceType, hashedKey, what \<^verbatim>\<open>get\<close> delivers\<close>
  | AwaitValueFactory string "string option" "(string list \<times> string) outcome"
      \<comment> \<open>lines 115, 122: extname, hashedKey when there is a cache instance\<close>
  | AwaitCacheSet string "string list \<times> string"
      \<comment> \<open>line 125: extname, value\<close>
  | AwaitLoadDeps string string "nat list"
      \<comment> \<open>lines 342, 353: extname, transformedSource, the promises given to \<^verbatim>\<open>Promise.all\<close>\<close>

datatype status = Running cont | Fulfilled jsval | Rejected error

datatype kind = Request pathCx | LoadBody resource

record task =
  kind :: kind
  status :: status

text \<open>The invocations of collaborators, recorded in the order they are made.\<close>

datatype call =
    CGetResource pathCx
  | CLoadModule string
  | CGetContent string
  | CHandleModule string
  | CDefaultHandleModule string
  | CTransformJSCode string
  | CExecute string
  | CLog string

record state =
  moduleCache :: "string \<rightharpoonup> entry"
  tasks :: "task list"
  calls :: "call list"
  store :: cacheStore
  settled :: "nat list"

text \<open>\<open>settled\<close> lists the settled tasks, earliest first (\<^verbatim>\<open>Promise.all\<close> needs the order).\<close>

definition record_call :: "call \<Rightarrow> state \<Rightarrow> state" where
  "record_call c s = s\<lparr>calls := calls s @ [c]\<rparr>"

definition spawn :: "kind \<Rightarrow> status \<Rightarrow> state \<Rightarrow> state" where
  "spawn k st s =
     s\<lparr>tasks := tasks s @ [\<lparr>kind = k, status = st\<rparr>],
       settled := (case st of Running c \<Rightarrow> settled s | _ \<Rightarrow> settled s @ [length (tasks s)])\<rparr>"

definition suspend :: "nat \<Rightarrow> cont \<Rightarrow> state \<Rightarrow> state" where
  "suspend t c s = s\<lparr>tasks := (tasks s)[t := (tasks s ! t)\<lparr>status := Running c\<rparr>]\<rparr>"

definition fulfil :: "nat \<Rightarrow> jsval \<Rightarrow> state \<Rightarrow> state" where
  "fulfil t v s =
     s\<lparr>tasks := (tasks s)[t := (tasks s ! t)\<lparr>status := Fulfilled v\<rparr>], settled := settled s @ [t]\<rparr>"

definition reject :: "nat \<Rightarrow> error \<Rightarrow> state \<Rightarrow> state" where
  "reject t ex s =
     s\<lparr>tasks := (tasks s)[t := (tasks s ! t)\<lparr>status := Rejected ex\<rparr>], settled := settled s @ [t]\<rparr>"

section \<open>loadModuleInternal (lines 245-291)\<close>

text \<open>
  The body up to its first \<^verbatim>\<open>await\<close> (lines 262-269): it calls \<^verbatim>\<open>loadModule\<close> when there is
  one, \<^verbatim>\<open>getContent\<close> otherwise. The new task is number \<open>length (tasks s)\<close>.
\<close>

definition startBody :: "options \<Rightarrow> resource \<Rightarrow> state \<Rightarrow> state" where
  "startBody opts res s =
     (case loadModule opts of
        Some lm \<Rightarrow>
          spawn (LoadBody res) (Running (AwaitLoadModule (lm (res_id res))))
            (record_call (CLoadModule (res_id res)) s)
      | None \<Rightarrow>
          spawn (LoadBody res) (Running (AwaitGetContent (getContent res)))
            (record_call (CGetContent (res_id res)) s))"

text \<open>
  The call itself, up to its first \<^verbatim>\<open>await\<close> or its return. All of it runs without
  suspension: resolution, the cache test and, for a new identity, the start of the body
  and the assignment \<^verbatim>\<open>moduleCache[id] = new Loading(...)\<close> of line 260. A throw of
  \<^verbatim>\<open>getResource\<close> rejects the promise of the call. The task of the call is the last one of
  the resulting state.
\<close>

definition loadModuleInternal :: "options \<Rightarrow> pathCx \<Rightarrow> state \<Rightarrow> state" where
  "loadModuleInternal opts pathCx s =
     (let s1 = record_call (CGetResource pathCx) s in
      case getResource opts pathCx of
        Inl ex \<Rightarrow> spawn (Request pathCx) (Rejected ex) s1
      | Inr res \<Rightarrow>
          (case moduleCache s1 (res_id res) of
             Some (Loading p) \<Rightarrow> spawn (Request pathCx) (Running (AwaitLoading p)) s1
           | Some (Value module) \<Rightarrow> spawn (Request pathCx) (Fulfilled module) s1
           | None \<Rightarrow>
               (let b = length (tasks s1);
                    s2 = startBody opts res s1;
                    s3 = s2\<lparr>moduleCache := (moduleCache s2)(res_id res \<mapsto> Loading b)\<rparr>
                in spawn (Request pathCx) (Running (AwaitLoading b)) s3)))"

text \<open>Lines 283-286: the end of the body, with the module a handler has produced.\<close>

definition complete :: "nat \<Rightarrow> resource \<Rightarrow> string \<Rightarrow> jsval \<Rightarrow> state \<Rightarrow> state" where
  "complete b res extname module s =
     (if module = Undefined
      then reject b (TypeError (''Unable to handle '' @ extname @ '' files ('' @ res_path res @ '')'')) s
      else fulfil b module (s\<lparr>moduleCache := (moduleCache s)(res_id res \<mapsto> Value module)\<rparr>))"

section \<open>createModule, loadDeps, createJSModule, transformJSCode\<close>

text \<open>The function \<^verbatim>\<open>require\<close> that \<^verbatim>\<open>createModule\<close> builds (lines 304-311).\<close>

definition require ::
  "options \<Rightarrow> string \<Rightarrow> (string \<rightharpoonup> entry) \<Rightarrow> string \<Rightarrow> error + entry" where
  "require opts refPath' cache relPath' =
     (case getResource opts \<lparr>refPath = refPath', relPath = relPath'\<rparr> of
        Inl ex \<Rightarrow> Inl ex
      | Inr res \<Rightarrow>
          (case cache (res_id res) of
             Some e \<Rightarrow> Inr e
           | None \<Rightarrow> Inl (Error (res_id res @ '' not found in moduleCache''))))"

text \<open>\<^verbatim>\<open>createModule(refPath, source, options).exports\<close> (lines 300-327, 343).\<close>

definition createModule :: "options \<Rightarrow> string \<Rightarrow> string \<Rightarrow> state \<Rightarrow> jsval outcome" where
  "createModule opts refPath' source s =
     execute opts source refPath' (require opts refPath' (moduleCache s))"

text \<open>
  \<^verbatim>\<open>deps.map(relPath => loadModuleInternal({ refPath, relPath }, options))\<close> (line 353): the
  calls are made one after the other without suspension; the result lists their promises.
\<close>

fun startDeps :: "options \<Rightarrow> string \<Rightarrow> string list \<Rightarrow> state \<Rightarrow> state \<times> nat list" where
  "startDeps opts refPath' [] s = (s, [])"
| "startDeps opts refPath' (relPath' # deps) s =
     (let s1 = loadModuleInternal opts \<lparr>refPath = refPath', relPath = relPath'\<rparr> s;
          (s2, ps) = startDeps opts refPath' deps s1
      in (s2, (length (tasks s1) - 1) # ps))"

text \<open>
  \<^verbatim>\<open>Promise.all\<close>: rejected as soon as one of its promises is rejected, with that reason
  (the first of them in the order of settlement); fulfilled when all are fulfilled;
  pending otherwise.
\<close>

definition is_rejected :: "state \<Rightarrow> nat \<Rightarrow> bool" where
  "is_rejected s t = (case status (tasks s ! t) of Rejected ex \<Rightarrow> True | _ \<Rightarrow> False)"

definition is_fulfilled :: "state \<Rightarrow> nat \<Rightarrow> bool" where
  "is_fulfilled s t = (case status (tasks s ! t) of Fulfilled v \<Rightarrow> True | _ \<Rightarrow> False)"

definition first_rejected :: "state \<Rightarrow> nat list \<Rightarrow> nat option" where
  "first_rejected s ps = find (\<lambda>t. t \<in> set ps \<and> is_rejected s t) (settled s)"

definition promise_all :: "state \<Rightarrow> nat list \<Rightarrow> unit outcome option" where
  "promise_all s ps =
     (case first_rejected s ps of
        Some t \<Rightarrow> (case status (tasks s ! t) of Rejected ex \<Rightarrow> Some (Inl ex) | _ \<Rightarrow> None)
      | None \<Rightarrow> if list_all (is_fulfilled s) ps then Some (Inr ()) else None)"

text \<open>
  transformJSCode (lines 205-238): what the call records (the \<^verbatim>\<open>log\<close> of a parse error)
  and how its promise settles.
\<close>

definition transformJSCode ::
  "options \<Rightarrow> string \<Rightarrow> bool \<Rightarrow> string \<Rightarrow> call list \<times> (string list \<times> string) outcome" where
  "transformJSCode opts source moduleSourceType filename =
     (case babel_parse opts source moduleSourceType filename of
        Inl ex \<Rightarrow> (if log opts then [CLog ''parse script''] else [], Inl ex)
      | Inr ast \<Rightarrow>
          (let depsList = parseDeps opts ast in
           case babel_transformFromAstAsync opts ast source of
             Inl ex \<Rightarrow> ([], Inl ex)
           | Inr code \<Rightarrow> ([], Inr (depsList, code))))"

text \<open>Invoking the value factory of line 337, which is \<^verbatim>\<open>transformJSCode\<close>.\<close>

definition callValueFactory ::
  "options \<Rightarrow> nat \<Rightarrow> resource \<Rightarrow> string \<Rightarrow> string \<Rightarrow> bool \<Rightarrow> string option \<Rightarrow> state \<Rightarrow> state" where
  "callValueFactory opts b res extname source moduleSourceType hashedKey s =
     (let (logged, result) = transformJSCode opts source moduleSourceType (res_path res)
      in suspend b (AwaitValueFactory extname hashedKey result)
           (s\<lparr>calls := calls s @ CTransformJSCode (res_id res) # logged\<rparr>))"

text \<open>
  createJSModule (lines 333-344) with withCache inlined, up to the first \<^verbatim>\<open>await\<close>:
  without a cache instance the value factory is invoked (line 115), with one
  \<^verbatim>\<open>cacheInstance.get(hashedKey)\<close> is (line 118).
\<close>

definition createJSModule ::
  "options \<Rightarrow> nat \<Rightarrow> resource \<Rightarrow> string \<Rightarrow> string \<Rightarrow> bool \<Rightarrow> state \<Rightarrow> state" where
  "createJSModule opts b res extname source moduleSourceType s =
     (if \<not> compiledCache opts
      then callValueFactory opts b res extname source moduleSourceType None s
      else (let hashedKey = hash (md5 opts) [version opts, source, res_path res]
            in suspend b (AwaitCacheGet extname source moduleSourceType hashedKey
                            (store s hashedKey)) s))"

text \<open>Line 342: \<^verbatim>\<open>await loadDeps(filename, depsList, options)\<close>, up to the \<^verbatim>\<open>await\<close>.\<close>

definition loadDeps ::
  "options \<Rightarrow> nat \<Rightarrow> resource \<Rightarrow> string \<Rightarrow> string list \<times> string \<Rightarrow> state \<Rightarrow> state" where
  "loadDeps opts b res extname value s =
     (let (s1, ps) = startDeps opts (res_path res) (fst value) s
      in suspend b (AwaitLoadDeps extname (snd value) ps) s1)"

text \<open>
  defaultHandleModule (lines 360-369), up to the first \<^verbatim>\<open>await\<close>; for an extension
  without built-in handler it returns \<^verbatim>\<open>undefined\<close> and the body ends at line 284.
\<close>

definition defaultHandleModule ::
  "options \<Rightarrow> nat \<Rightarrow> resource \<Rightarrow> string \<Rightarrow> string \<Rightarrow> state \<Rightarrow> state" where
  "defaultHandleModule opts b res extname source s =
     (let s1 = record_call (CDefaultHandleModule (res_id res)) s in
      if extname = ''.vue''
      then suspend b (AwaitCreateSFCModule extname (createSFCModule opts source (res_path res))) s1
      else if extname = ''.js'' then createJSModule opts b res extname source False s1
      else if extname = ''.mjs'' then createJSModule opts b res extname source True s1
      else complete b res extname Undefined s1)"

section \<open>Resuming a suspended task\<close>

text \<open>
  \<open>resume opts t k c s\<close> continues task \<open>t\<close>, of kind \<open>k\<close>, suspended at \<open>c\<close>, up to its
  next \<^verbatim>\<open>await\<close> or its end. A task that awaits a promise still pending stays as it is.
\<close>

fun resume :: "options \<Rightarrow> nat \<Rightarrow> kind \<Rightarrow> cont \<Rightarrow> state \<Rightarrow> state" where
  "resume opts t k (AwaitLoading p) s =
     (if p < length (tasks s)
      then (case status (tasks s ! p) of
              Running c \<Rightarrow> s
            | Fulfilled module \<Rightarrow> fulfil t module s
            | Rejected ex \<Rightarrow> reject t ex s)
      else s)"
| "resume opts b (LoadBody res) (AwaitLoadModule r) s =
     (case r of
        Inl ex \<Rightarrow> reject b ex s
      | Inr module \<Rightarrow>
          if module \<noteq> Undefined
          then fulfil b module (s\<lparr>moduleCache := (moduleCache s)(res_id res \<mapsto> Value module)\<rparr>)
          else suspend b (AwaitGetContent (getContent res))
                 (record_call (CGetContent (res_id res)) s))"
| "resume opts b (LoadBody res) (AwaitGetContent r) s =
     (case r of
        Inl ex \<Rightarrow> reject b ex s
      | Inr (content, extname) \<Rightarrow>
          (case content of
             Str source \<Rightarrow>
               (case handleModule opts of
                  Some hm \<Rightarrow>
                    suspend b (AwaitHandleModule extname source (hm extname source (res_path res)))
                      (record_call (CHandleModule (res_id res)) s)
                | None \<Rightarrow> defaultHandleModule opts b res extname source s)
           | _ \<Rightarrow>
               reject b (TypeError (''Invalid module content ('' @ res_path res @ ''): ''
                                     @ toString content)) s))"
| "resume opts b (LoadBody res) (AwaitHandleModule extname source r) s =
     (case r of
        Inl ex \<Rightarrow> reject b ex s
      | Inr module \<Rightarrow>
          if module = Undefined then defaultHandleModule opts b res extname source s
          else complete b res extname module s)"
| "resume opts b (LoadBody res) (AwaitCreateSFCModule extname r) s =
     (case r of
        Inl ex \<Rightarrow> reject b ex s
      | Inr module \<Rightarrow> complete b res extname module s)"
| "resume opts b (LoadBody res) (AwaitCacheGet extname source moduleSourceType hashedKey valueStr) s =
     (case valueStr of
        None \<Rightarrow> callValueFactory opts b res extname source moduleSourceType (Some hashedKey) s
      | Some str \<Rightarrow>
          if truthy (Some str)
          then (case JSON_parse opts str of
                  Inl ex \<Rightarrow> reject b ex s
                | Inr value \<Rightarrow> loadDeps opts b res extname value s)
          else callValueFactory opts b res extname source moduleSourceType (Some hashedKey) s)"
| "resume opts b (LoadBody res) (AwaitValueFactory extname hashedKey r) s =
     (case r of
        Inl ex \<Rightarrow> reject b ex s
      | Inr value \<Rightarrow>
          (case hashedKey of
             None \<Rightarrow> loadDeps opts b res extname value s
           | Some key \<Rightarrow>
               suspend b (AwaitCacheSet extname value)
                 (s\<lparr>store := (store s)(key \<mapsto> JSON_stringify opts value)\<rparr>)))"
| "resume opts b (LoadBody res) (AwaitCacheSet extname value) s =
     loadDeps opts b res extname value s"
| "resume opts b (LoadBody res) (AwaitLoadDeps extname transformedSource ps) s =
     (case promise_all s ps of
        None \<Rightarrow> s
      | Some (Inl ex) \<Rightarrow> reject b ex s
      | Some (Inr u) \<Rightarrow>
          (let s1 = record_call (CExecute (res_id res)) s in
           case createModule opts (res_path res) transformedSource s1 of
             Inl ex \<Rightarrow> reject b ex s1
           | Inr module \<Rightarrow> complete b res extname module s1))"
| "resume opts t (Request pathCx) c s = s"

section \<open>Cooperative scheduling\<close>

text \<open>
  One task runs at a time, from one suspension point to the next. An event is a new
  call of \<^verbatim>\<open>loadModuleInternal\<close> from outside (the public \<^verbatim>\<open>loadModule\<close>, or \<^verbatim>\<open>import__\<close>
  called by module code) or the resumption of a suspended task; a schedule is a list of
  events, and every interleaving is a schedule.
\<close>

datatype event = Call pathCx | Resume nat

definition step :: "options \<Rightarrow> event \<Rightarrow> state \<Rightarrow> state" where
  "step opts ev s =
     (case ev of
        Call pathCx \<Rightarrow> loadModuleInternal opts pathCx s
      | Resume t \<Rightarrow>
          if t < length (tasks s)
          then (case status (tasks s ! t) of
                  Running c \<Rightarrow> resume opts t (kind (tasks s ! t)) c s
                | _ \<Rightarrow> s)
          else s)"

definition run :: "options \<Rightarrow> event list \<Rightarrow> state \<Rightarrow> state" where
  "run opts evs s = foldl (\<lambda>s ev. step opts ev s) s evs"

text \<open>
  A session starts with a module cache that holds only the exports the caller has put
  there (\<^verbatim>\<open>moduleCache: { vue: Vue }\<close>) and no task.
\<close>

definition init :: "(string \<rightharpoonup> jsval) \<Rightarrow> cacheStore \<Rightarrow> state" where
  "init preloaded st =
     \<lparr>moduleCache = (\<lambda>i. map_option Value (preloaded i)), tasks = [], calls = [],
      store = st, settled = []\<rparr>"

section \<open>An example configuration\<close>

text \<open>
  A small application used to run the definitions on concrete inputs: \<^verbatim>\<open>/app/m.js\<close>
  (reachable under two relative references) imports \<^verbatim>\<open>./n.vue\<close>, a component whose
  compiled export is \<^verbatim>\<open>null\<close>, and \<^verbatim>\<open>./a.js\<close> and \<^verbatim>\<open>./b.js\<close>, whose content cannot be
  fetched; \<^verbatim>\<open>/app/c.txt\<close> has an extension without handler.
\<close>

definition demo_resource :: "string \<Rightarrow> (jsval \<times> string) outcome \<Rightarrow> resource" where
  "demo_resource p c = \<lparr>res_id = p, res_path = p, getContent = c\<rparr>"

definition demo_getResource :: "pathCx \<Rightarrow> error + resource" where
  "demo_getResource pc =
     (if relPath pc = ''./m.js'' \<or> relPath pc = ''../app/m.js''
      then Inr (demo_resource ''/app/m.js'' (Inr (Str ''import n, a, b'', ''.js'')))
      else if relPath pc = ''./a.js'' then Inr (demo_resource ''/app/a.js'' (Inl (Thrown 1)))
      else if relPath pc = ''./b.js'' then Inr (demo_resource ''/app/b.js'' (Inl (Thrown 2)))
      else if relPath pc = ''./c.txt'' then Inr (demo_resource ''/app/c.txt'' (Inr (Str ''text'', ''.txt'')))
      else if relPath pc = ''./n.vue'' then Inr (demo_resource ''/app/n.vue'' (Inr (Str ''sfc'', ''.vue'')))
      else Inl (Error ''unresolved''))"

definition demo :: options where
  "demo =
     \<lparr>getResource = demo_getResource, loadModule = None, handleModule = None,
      compiledCache = False, log = True, version = ''1.0'', md5 = (\<lambda>text. text),
      createSFCModule = (\<lambda>source filename. Inr Null),
      babel_parse = (\<lambda>source moduleSourceType filename. Inr 0),
      parseDeps = (\<lambda>ast. [''./n.vue'', ''./a.js'', ''./b.js'']),
      babel_transformFromAstAsync = (\<lambda>ast source. Inr source),
      JSON_stringify = (\<lambda>value. snd value),
      JSON_parse = (\<lambda>text. Inr ([], text)),
      execute = (\<lambda>source filename req. Inr (Obj 1))\<rparr>"

text \<open>
  Variants: a caller-supplied handler that handles scripts and declines everything else;
  a \<^verbatim>\<open>loadModule\<close> callback that supplies \<^verbatim>\<open>/app/m.js\<close> itself; a configured compiled
  cache.
\<close>

definition demo_handler :: options where
  "demo_handler =
     demo\<lparr>handleModule :=
            Some (\<lambda>extname source filename. if extname = ''.js'' then Inr (Obj 7) else Inr Undefined)\<rparr>"

definition demo_loadModule :: options where
  "demo_loadModule =
     demo\<lparr>loadModule := Some (\<lambda>i. if i = ''/app/m.js'' then Inr (Obj 3) else Inr Undefined)\<rparr>"

definition demo_cached :: options where
  "demo_cached = demo\<lparr>compiledCache := True\<rparr>"

definition from_app :: "string \<Rightarrow> pathCx" where
  "from_app rel = \<lparr>refPath = ''/app/'', relPath = rel\<rparr>"



section \<open>Predicates used in the proofs\<close>

definition is_body :: "task list \<Rightarrow> nat \<Rightarrow> string \<Rightarrow> bool" where
  "is_body ts b i = (b < length ts \<and> (\<exists>res. kind (ts ! b) = LoadBody res \<and> res_id res = i))"

definition body_ok :: "(string \<rightharpoonup> entry) \<Rightarrow> nat \<Rightarrow> string \<Rightarrow> status \<Rightarrow> bool" where
  "body_ok mc b i st =
     (case st of
        Fulfilled v \<Rightarrow> mc i = Some (Value v)
      | Rejected ex \<Rightarrow> mc i = Some (Loading b)
      | Running c \<Rightarrow> mc i = Some (Loading b) \<and> (\<forall>p. c \<noteq> AwaitLoading p))"

definition req_ok :: "options \<Rightarrow> (string \<rightharpoonup> entry) \<Rightarrow> task list \<Rightarrow> pathCx \<Rightarrow> status \<Rightarrow> bool" where
  "req_ok opts mc ts pc st =
     (case st of
        Running c \<Rightarrow> (\<exists>p res. c = AwaitLoading p \<and> getResource opts pc = Inr res \<and> is_body ts p (res_id res))
      | Fulfilled v \<Rightarrow> (\<exists>res. getResource opts pc = Inr res \<and> mc (res_id res) = Some (Value v))
      | Rejected ex \<Rightarrow>
          getResource opts pc = Inl ex \<or>
          (\<exists>res p. getResource opts pc = Inr res \<and> is_body ts p (res_id res) \<and>
                   status (ts ! p) = Rejected ex))"

definition consistent :: "options \<Rightarrow> (string \<rightharpoonup> entry) \<Rightarrow> task list \<Rightarrow> bool" where
  "consistent opts mc ts =
     ((\<forall>i p. mc i = Some (Loading p) \<longrightarrow> is_body ts p i) \<and>
      (\<forall>b i. is_body ts b i \<longrightarrow> body_ok mc b i (status (ts ! b))) \<and>
      (\<forall>b1 b2 i. is_body ts b1 i \<longrightarrow> is_body ts b2 i \<longrightarrow> b1 = b2) \<and>
      (\<forall>r pc. r < length ts \<longrightarrow> kind (ts ! r) = Request pc \<longrightarrow> req_ok opts mc ts pc (status (ts ! r))))"

definition running_body :: "task list \<Rightarrow> nat \<Rightarrow> resource \<Rightarrow> bool" where
  "running_body ts b res =
     (b < length ts \<and> kind (ts ! b) = LoadBody res \<and> (\<exists>c. status (ts ! b) = Running c))"

definition state_ok :: "options \<Rightarrow> state \<Rightarrow> bool" where
  "state_ok opts s = consistent opts (moduleCache s) (tasks s)"

fun call_id :: "call \<Rightarrow> string option" where
  "call_id (CGetResource pc) = None"
| "call_id (CLoadModule i) = Some i"
| "call_id (CGetContent i) = Some i"
| "call_id (CHandleModule i) = Some i"
| "call_id (CDefaultHandleModule i) = Some i"
| "call_id (CTransformJSCode i) = Some i"
| "call_id (CExecute i) = Some i"
| "call_id (CLog m) = None"

definition calls_for :: "string \<Rightarrow> state \<Rightarrow> call list" where
  "calls_for i s = filter (\<lambda>c. call_id c = Some i) (calls s)"

definition changes_only :: "state \<Rightarrow> state \<Rightarrow> nat set \<Rightarrow> string set \<Rightarrow> bool" where
  "changes_only s s' T I =
     (length (tasks s) \<le> length (tasks s') \<and>
      (\<forall>t<length (tasks s). kind (tasks s' ! t) = kind (tasks s ! t) \<and>
                             (t \<notin> T \<longrightarrow> tasks s' ! t = tasks s ! t)) \<and>
      (\<forall>j. j \<notin> I \<longrightarrow> moduleCache s j \<noteq> None \<longrightarrow>
             moduleCache s' j = moduleCache s j \<and> calls_for j s' = calls_for j s) \<and>
      (\<exists>added. calls s' = calls s @ added))"

fun ev_tasks :: "event \<Rightarrow> nat set" where
  "ev_tasks (Call pc) = {}"
| "ev_tasks (Resume t) = {t}"

definition ev_ids :: "state \<Rightarrow> event \<Rightarrow> string set" where
  "ev_ids s ev =
     (case ev of
        Call pc \<Rightarrow> {}
      | Resume t \<Rightarrow>
          if t < length (tasks s)
          then (case (kind (tasks s ! t), status (tasks s ! t)) of
                  (LoadBody res, Running c) \<Rightarrow> {res_id res}
                | _ \<Rightarrow> {})
          else {})"

definition is_settled :: "status \<Rightarrow> bool" where
  "is_settled st = (case st of Running c \<Rightarrow> False | _ \<Rightarrow> True)"

definition final_entry :: "state \<Rightarrow> entry \<Rightarrow> bool" where
  "final_entry s e =
     (case e of
        Value v \<Rightarrow> True
      | Loading b \<Rightarrow> b < length (tasks s) \<and> is_settled (status (tasks s ! b)))"

fun call_ph :: "call \<Rightarrow> nat" where
  "call_ph (CLoadModule i) = 0"
| "call_ph (CGetContent i) = 1"
| "call_ph (CHandleModule i) = 2"
| "call_ph (CDefaultHandleModule i) = 3"
| "call_ph (CTransformJSCode i) = 5"
| "call_ph (CExecute i) = 8"
| "call_ph (CGetResource pc) = 0"
| "call_ph (CLog m) = 0"

fun cont_phase :: "cont \<Rightarrow> nat" where
  "cont_phase (AwaitLoading p) = 0"
| "cont_phase (AwaitLoadModule r) = 0"
| "cont_phase (AwaitGetContent r) = 1"
| "cont_phase (AwaitHandleModule e c r) = 2"
| "cont_phase (AwaitCreateSFCModule e r) = 4"
| "cont_phase (AwaitCacheGet e src m k v) = 4"
| "cont_phase (AwaitValueFactory e k r) = 5"
| "cont_phase (AwaitCacheSet e v) = 6"
| "cont_phase (AwaitLoadDeps e src ps) = 7"

fun phase :: "status \<Rightarrow> nat" where
  "phase (Running c) = cont_phase c"
| "phase (Fulfilled v) = 9"
| "phase (Rejected ex) = 9"

definition calls_ok :: "task list \<Rightarrow> call list \<Rightarrow> (nat \<Rightarrow> nat) \<Rightarrow> bool" where
  "calls_ok ts cs ph =
     (\<forall>c i. call_id c = Some i \<longrightarrow>
        count_list cs c \<le> 1 \<and> (c \<in> set cs \<longrightarrow> (\<exists>b. is_body ts b i \<and> call_ph c \<le> ph b)))"

definition phases :: "state \<Rightarrow> nat \<Rightarrow> nat" where
  "phases s t = phase (status (tasks s ! t))"

definition calls_inv :: "state \<Rightarrow> bool" where
  "calls_inv s = calls_ok (tasks s) (calls s) (phases s)"

definition calls_mid :: "state \<Rightarrow> nat \<Rightarrow> nat \<Rightarrow> bool" where
  "calls_mid s b n = calls_ok (tasks s) (calls s) ((phases s)(b := n))"

definition settled_inv :: "state \<Rightarrow> bool" where
  "settled_inv s =
     (\<forall>t<length (tasks s). is_settled (status (tasks s ! t)) \<longrightarrow> t \<in> set (settled s))"

definition bodiesStarted :: "state \<Rightarrow> string \<Rightarrow> nat" where
  "bodiesStarted s i =
     length (filter (\<lambda>t. case kind t of LoadBody res \<Rightarrow> res_id res = i | Request pc \<Rightarrow> False)
               (tasks s))"

text \<open>A task that awaits a promise receives the settlement of that promise, whenever it is
  resumed.\<close>

definition awaits :: "state \<Rightarrow> nat \<Rightarrow> nat \<Rightarrow> bool" where
  "awaits s r p =
     (r < length (tasks s) \<and> p < length (tasks s) \<and> r \<noteq> p \<and>
      (status (tasks s ! r) = Running (AwaitLoading p) \<or>
       (is_settled (status (tasks s ! p)) \<and> status (tasks s ! r) = status (tasks s ! p))))"

text \<open>
  The load of \<open>res\<close> by task \<open>b\<close> is one that a \<^verbatim>\<open>loadModule\<close> callback answers with \<open>v\<close>:
  the body awaits the callback, or has been fulfilled with \<open>v\<close>; the callback is the only
  collaborator invoked for this identity.
\<close>

definition short_circuit :: "options \<Rightarrow> nat \<Rightarrow> resource \<Rightarrow> jsval \<Rightarrow> state \<Rightarrow> bool" where
  "short_circuit opts b res v x =
     (state_ok opts x \<and> b < length (tasks x) \<and> kind (tasks x ! b) = LoadBody res \<and>
      calls_for (res_id res) x = [CLoadModule (res_id res)] \<and>
      ((status (tasks x ! b) = Running (AwaitLoadModule (Inr v)) \<and>
        moduleCache x (res_id res) = Some (Loading b)) \<or>
       (status (tasks x ! b) = Fulfilled v \<and> moduleCache x (res_id res) = Some (Value v))))"

section \<open>Invariants of the loader\<close>

lemma record_call_sel [simp]:
  "moduleCache (record_call c s) = moduleCache s"
  "tasks (record_call c s) = tasks s"
  "calls (record_call c s) = calls s @ [c]"
  "store (record_call c s) = store s"
  "settled (record_call c s) = settled s"
  by (simp_all add: record_call_def)

lemma spawn_sel [simp]:
  "moduleCache (spawn k st s) = moduleCache s"
  "tasks (spawn k st s) = tasks s @ [\<lparr>kind = k, status = st\<rparr>]"
  "calls (spawn k st s) = calls s"
  "store (spawn k st s) = store s"
  by (simp_all add: spawn_def)

lemma suspend_sel [simp]:
  "moduleCache (suspend t c s) = moduleCache s"
  "tasks (suspend t c s) = (tasks s)[t := (tasks s ! t)\<lparr>status := Running c\<rparr>]"
  "calls (suspend t c s) = calls s"
  "store (suspend t c s) = store s"
  "settled (suspend t c s) = settled s"
  by (simp_all add: suspend_def)

lemma fulfil_sel [simp]:
  "moduleCache (fulfil t v s) = moduleCache s"
  "tasks (fulfil t v s) = (tasks s)[t := (tasks s ! t)\<lparr>status := Fulfilled v\<rparr>]"
  "calls (fulfil t v s) = calls s"
  "store (fulfil t v s) = store s"
  "settled (fulfil t v s) = settled s @ [t]"
  by (simp_all add: fulfil_def)

lemma reject_sel [simp]:
  "moduleCache (reject t ex s) = moduleCache s"
  "tasks (reject t ex s) = (tasks s)[t := (tasks s ! t)\<lparr>status := Rejected ex\<rparr>]"
  "calls (reject t ex s) = calls s"
  "store (reject t ex s) = store s"
  "settled (reject t ex s) = settled s @ [t]"
  by (simp_all add: reject_def)

lemma consistentI:
  assumes "\<And>i p. mc i = Some (Loading p) \<Longrightarrow> is_body ts p i"
    and "\<And>b i. is_body ts b i \<Longrightarrow> body_ok mc b i (status (ts ! b))"
    and "\<And>b1 b2 i. is_body ts b1 i \<Longrightarrow> is_body ts b2 i \<Longrightarrow> b1 = b2"
    and "\<And>r pc. r < length ts \<Longrightarrow> kind (ts ! r) = Request pc \<Longrightarrow> req_ok opts mc ts pc (status (ts ! r))"
  shows "consistent opts mc ts"
  using assms unfolding consistent_def by blast

lemma consistent_cache: "consistent opts mc ts \<Longrightarrow> mc i = Some (Loading p) \<Longrightarrow> is_body ts p i"
  unfolding consistent_def by blast

lemma consistent_body: "consistent opts mc ts \<Longrightarrow> is_body ts b i \<Longrightarrow> body_ok mc b i (status (ts ! b))"
  unfolding consistent_def by blast

lemma consistent_unique: "consistent opts mc ts \<Longrightarrow> is_body ts b1 i \<Longrightarrow> is_body ts b2 i \<Longrightarrow> b1 = b2"
  unfolding consistent_def by blast

lemma consistent_request:
  "consistent opts mc ts \<Longrightarrow> r < length ts \<Longrightarrow> kind (ts ! r) = Request pc \<Longrightarrow>
   req_ok opts mc ts pc (status (ts ! r))"
  unfolding consistent_def by blast

lemma is_body_lt: "is_body ts b i \<Longrightarrow> b < length ts"
  by (simp add: is_body_def)

lemma is_bodyI: "b < length ts \<Longrightarrow> kind (ts ! b) = LoadBody res \<Longrightarrow> is_body ts b (res_id res)"
  by (simp add: is_body_def)

lemma is_body_kind: "is_body ts b i \<Longrightarrow> kind (ts ! b) = LoadBody res \<Longrightarrow> i = res_id res"
  by (auto simp: is_body_def)

lemma is_body_not_request: "is_body ts b i \<Longrightarrow> kind (ts ! b) \<noteq> Request pc"
  by (auto simp: is_body_def)

lemma is_body_append_request [simp]:
  "is_body (ts @ [\<lparr>kind = Request pc, status = st\<rparr>]) b i = is_body ts b i"
  by (auto simp: is_body_def nth_append)

lemma is_body_append_body:
  "is_body (ts @ [\<lparr>kind = LoadBody res, status = st\<rparr>]) b i =
     (is_body ts b i \<or> (b = length ts \<and> i = res_id res))"
  by (auto simp: is_body_def nth_append)

lemma is_body_update [simp]:
  "is_body (ts[t := (ts ! t)\<lparr>status := st\<rparr>]) b i = is_body ts b i"
  by (cases "t = b") (auto simp: is_body_def)

lemma consistent_no_body:
  assumes "consistent opts mc ts" "mc i = None"
  shows "\<not> is_body ts b i"
proof
  assume "is_body ts b i"
  then have "body_ok mc b i (status (ts ! b))"
    using assms(1) by (rule consistent_body[rotated])
  with assms(2) show False
    by (simp add: body_ok_def split: status.splits)
qed

lemma req_ok_mono:
  assumes "req_ok opts mc ts pc st"
    and "\<And>p i. is_body ts p i \<Longrightarrow> is_body ts' p i"
    and "\<And>p i ex. is_body ts p i \<Longrightarrow> status (ts ! p) = Rejected ex \<Longrightarrow> status (ts' ! p) = Rejected ex"
    and "\<And>j v. mc j = Some (Value v) \<Longrightarrow> mc' j = Some (Value v)"
  shows "req_ok opts mc' ts' pc st"
proof (cases st)
  case (Running c)
  with assms(1) obtain p res where "c = AwaitLoading p" "getResource opts pc = Inr res"
      "is_body ts p (res_id res)"
    by (auto simp: req_ok_def)
  with assms(2) Running show ?thesis
    by (auto simp: req_ok_def)
next
  case (Fulfilled v)
  with assms(1) obtain res where "getResource opts pc = Inr res" "mc (res_id res) = Some (Value v)"
    by (auto simp: req_ok_def)
  with assms(4) Fulfilled show ?thesis
    by (auto simp: req_ok_def)
next
  case (Rejected ex)
  with assms(1) consider "getResource opts pc = Inl ex"
    | res p where "getResource opts pc = Inr res" "is_body ts p (res_id res)"
        "status (ts ! p) = Rejected ex"
    by (auto simp: req_ok_def)
  then show ?thesis
  proof cases
    case 1
    with Rejected show ?thesis by (simp add: req_ok_def)
  next
    case 2
    with assms(2,3) have "is_body ts' p (res_id res)" "status (ts' ! p) = Rejected ex"
      by blast+
    with 2 Rejected show ?thesis by (auto simp: req_ok_def)
  qed
qed

text \<open>Consistency is kept when a request task is added.\<close>
lemma consistent_new_request:
  assumes c: "consistent opts mc ts" and r: "req_ok opts mc ts pc st"
  shows "consistent opts mc (ts @ [\<lparr>kind = Request pc, status = st\<rparr>])"
    (is "consistent opts mc ?ts'")
proof (rule consistentI)
  fix i p assume "mc i = Some (Loading p)"
  with c show "is_body ?ts' p i" by (simp add: consistent_cache)
next
  fix b i assume "is_body ?ts' b i"
  then have b: "is_body ts b i" by simp
  then have "?ts' ! b = ts ! b" by (simp add: nth_append is_body_lt)
  with consistent_body[OF c b] show "body_ok mc b i (status (?ts' ! b))" by simp
next
  fix b1 b2 i assume "is_body ?ts' b1 i" "is_body ?ts' b2 i"
  with c show "b1 = b2" by (simp add: consistent_unique)
next
  fix r' pc' assume lt: "r' < length ?ts'" and k: "kind (?ts' ! r') = Request pc'"
  have mono: "req_ok opts mc ?ts' q st'" if "req_ok opts mc ts q st'" for q st'
    using that by (rule req_ok_mono) (simp_all add: nth_append is_body_lt)
  show "req_ok opts mc ?ts' pc' (status (?ts' ! r'))"
  proof (cases "r' < length ts")
    case True
    with k have "kind (ts ! r') = Request pc'" by (simp add: nth_append)
    from consistent_request[OF c True this] True show ?thesis
      by (simp add: nth_append mono)
  next
    case False
    with lt have "r' = length ts" by simp
    with k mono[OF r] show ?thesis by simp
  qed
qed

text \<open>Consistency is kept when a body is started for an identity without entry.\<close>
lemma consistent_new_body:
  assumes c: "consistent opts mc ts" and n: "mc (res_id res) = None"
    and nl: "\<And>p. k \<noteq> AwaitLoading p"
  shows "consistent opts (mc(res_id res \<mapsto> Loading (length ts)))
           (ts @ [\<lparr>kind = LoadBody res, status = Running k\<rparr>])"
    (is "consistent opts ?mc' ?ts'")
proof (rule consistentI)
  fix i p assume "?mc' i = Some (Loading p)"
  with c show "is_body ?ts' p i"
    by (auto simp: is_body_append_body consistent_cache split: if_splits)
next
  fix b i assume "is_body ?ts' b i"
  then consider "is_body ts b i" | "b = length ts" "i = res_id res"
    by (auto simp: is_body_append_body)
  then show "body_ok ?mc' b i (status (?ts' ! b))"
  proof cases
    case 1
    then have ne: "i \<noteq> res_id res" using consistent_no_body[OF c n] by blast
    from 1 have "?ts' ! b = ts ! b" by (simp add: nth_append is_body_lt)
    moreover have "body_ok ?mc' b i st = body_ok mc b i st" for st
      using ne by (simp add: body_ok_def split: status.splits)
    ultimately show ?thesis using consistent_body[OF c 1] by simp
  next
    case 2
    with nl show ?thesis by (simp add: body_ok_def)
  qed
next
  fix b1 b2 i assume "is_body ?ts' b1 i" "is_body ?ts' b2 i"
  then show "b1 = b2"
    using consistent_no_body[OF c n] consistent_unique[OF c]
    by (auto simp: is_body_append_body)
next
  fix r pc assume lt: "r < length ?ts'" and k: "kind (?ts' ! r) = Request pc"
  then have lt': "r < length ts" by (cases "r = length ts") auto
  with k have k': "kind (ts ! r) = Request pc" by (simp add: nth_append)
  have "req_ok opts ?mc' ?ts' pc (status (ts ! r))"
    using consistent_request[OF c lt' k']
  proof (rule req_ok_mono)
    fix j v assume "mc j = Some (Value v)"
    with n show "?mc' j = Some (Value v)" by auto
  qed (simp_all add: is_body_append_body nth_append is_body_lt)
  with lt' show "req_ok opts ?mc' ?ts' pc (status (?ts' ! r))" by (simp add: nth_append)
qed

lemma running_body_is_body: "running_body ts b res \<Longrightarrow> is_body ts b (res_id res)"
  by (simp add: running_body_def is_body_def)

lemma running_body_cache:
  assumes "consistent opts mc ts" "running_body ts b res"
  shows "mc (res_id res) = Some (Loading b)"
  using consistent_body[OF assms(1) running_body_is_body[OF assms(2)]] assms(2)
  by (auto simp: running_body_def body_ok_def)

text \<open>Consistency is kept when a body moves to its next suspension point, or is rejected.\<close>
lemma consistent_body_progress:
  assumes c: "consistent opts mc ts" and rb: "running_body ts b res"
    and st: "case st of Running k \<Rightarrow> (\<forall>p. k \<noteq> AwaitLoading p) | Fulfilled v \<Rightarrow> False | Rejected ex \<Rightarrow> True"
  shows "consistent opts mc (ts[b := (ts ! b)\<lparr>status := st\<rparr>])"
    (is "consistent opts mc ?ts'")
proof (rule consistentI)
  fix i p assume "mc i = Some (Loading p)"
  with c show "is_body ?ts' p i" by (simp add: consistent_cache)
next
  fix b' i assume "is_body ?ts' b' i"
  then have b': "is_body ts b' i" by simp
  show "body_ok mc b' i (status (?ts' ! b'))"
  proof (cases "b' = b")
    case True
    with b' rb have "i = res_id res" by (auto simp: running_body_def is_body_def)
    with running_body_cache[OF c rb] st True rb show ?thesis
      by (auto simp: body_ok_def running_body_def split: status.splits)
  next
    case False
    with consistent_body[OF c b'] show ?thesis by simp
  qed
next
  fix b1 b2 i assume "is_body ?ts' b1 i" "is_body ?ts' b2 i"
  with c show "b1 = b2" by (simp add: consistent_unique)
next
  fix r pc assume lt: "r < length ?ts'" and k: "kind (?ts' ! r) = Request pc"
  with rb have ne: "r \<noteq> b" by (auto simp: running_body_def)
  with lt k have lt': "r < length ts" and k': "kind (ts ! r) = Request pc" by simp_all
  have "req_ok opts mc ?ts' pc (status (ts ! r))"
    using consistent_request[OF c lt' k']
  proof (rule req_ok_mono)
    fix p i ex assume "is_body ts p i" "status (ts ! p) = Rejected ex"
    with rb have "p \<noteq> b" by (auto simp: running_body_def)
    with \<open>status (ts ! p) = Rejected ex\<close> show "status (?ts' ! p) = Rejected ex" by simp
  qed simp_all
  with ne show "req_ok opts mc ?ts' pc (status (?ts' ! r))" by simp
qed

text \<open>Consistency is kept when a body is fulfilled and writes its export into the cache.\<close>
lemma consistent_body_fulfil:
  assumes c: "consistent opts mc ts" and rb: "running_body ts b res"
  shows "consistent opts (mc(res_id res \<mapsto> Value v)) (ts[b := (ts ! b)\<lparr>status := Fulfilled v\<rparr>])"
    (is "consistent opts ?mc' ?ts'")
proof (rule consistentI)
  fix i p assume "?mc' i = Some (Loading p)"
  with c show "is_body ?ts' p i" by (auto simp: consistent_cache split: if_splits)
next
  fix b' i assume "is_body ?ts' b' i"
  then have b': "is_body ts b' i" by simp
  show "body_ok ?mc' b' i (status (?ts' ! b'))"
  proof (cases "b' = b")
    case True
    with b' rb have "i = res_id res" by (auto simp: running_body_def is_body_def)
    with True rb show ?thesis by (simp add: body_ok_def running_body_def)
  next
    case False
    with consistent_unique[OF c b' ] running_body_is_body[OF rb] have "i \<noteq> res_id res" by blast
    then have "body_ok ?mc' b' i st = body_ok mc b' i st" for st
      by (simp add: body_ok_def split: status.splits)
    with consistent_body[OF c b'] False show ?thesis by simp
  qed
next
  fix b1 b2 i assume "is_body ?ts' b1 i" "is_body ?ts' b2 i"
  with c show "b1 = b2" by (simp add: consistent_unique)
next
  fix r pc assume lt: "r < length ?ts'" and k: "kind (?ts' ! r) = Request pc"
  with rb have ne: "r \<noteq> b" by (auto simp: running_body_def)
  with lt k have lt': "r < length ts" and k': "kind (ts ! r) = Request pc" by simp_all
  have "req_ok opts ?mc' ?ts' pc (status (ts ! r))"
    using consistent_request[OF c lt' k']
  proof (rule req_ok_mono)
    fix p i ex assume "is_body ts p i" "status (ts ! p) = Rejected ex"
    with rb have "p \<noteq> b" by (auto simp: running_body_def)
    with \<open>status (ts ! p) = Rejected ex\<close> show "status (?ts' ! p) = Rejected ex" by simp
  next
    fix j w assume "mc j = Some (Value w)"
    with running_body_cache[OF c rb] show "?mc' j = Some (Value w)" by auto
  qed simp_all
  with ne show "req_ok opts ?mc' ?ts' pc (status (?ts' ! r))" by simp
qed

text \<open>Consistency is kept when a request receives the settlement of the promise it awaits.\<close>
lemma consistent_request_settle:
  assumes c: "consistent opts mc ts" and lt: "r < length ts" and k: "kind (ts ! r) = Request pc"
    and aw: "status (ts ! r) = Running (AwaitLoading p)"
    and st: "status (ts ! p) = st" "\<And>k. st \<noteq> Running k"
  shows "consistent opts mc (ts[r := (ts ! r)\<lparr>status := st\<rparr>])"
    (is "consistent opts mc ?ts'")
proof (rule consistentI)
  fix i q assume "mc i = Some (Loading q)"
  with c show "is_body ?ts' q i" by (simp add: consistent_cache)
next
  fix b i assume "is_body ?ts' b i"
  then have b: "is_body ts b i" by simp
  with k have "b \<noteq> r" by (auto simp: is_body_def)
  with consistent_body[OF c b] show "body_ok mc b i (status (?ts' ! b))" by simp
next
  fix b1 b2 i assume "is_body ?ts' b1 i" "is_body ?ts' b2 i"
  with c show "b1 = b2" by (simp add: consistent_unique)
next
  fix r' pc' assume lt': "r' < length ?ts'" and k': "kind (?ts' ! r') = Request pc'"
  have keep: "status (?ts' ! q) = Rejected ex" if "is_body ts q i" "status (ts ! q) = Rejected ex" for q i ex
  proof -
    from that(1) k have "q \<noteq> r" by (auto simp: is_body_def)
    with that(2) show ?thesis by simp
  qed
  show "req_ok opts mc ?ts' pc' (status (?ts' ! r'))"
  proof (cases "r' = r")
    case False
    with lt' k' have lt'': "r' < length ts" and k'': "kind (ts ! r') = Request pc'" by simp_all
    have "req_ok opts mc ?ts' pc' (status (ts ! r'))"
      using consistent_request[OF c lt'' k''] by (rule req_ok_mono) (simp_all add: keep)
    with False show ?thesis by simp
  next
    case True
    with k' k lt have pc: "pc' = pc" by simp
    from consistent_request[OF c lt k] aw obtain res where
      res: "getResource opts pc = Inr res" and body: "is_body ts p (res_id res)"
      by (auto simp: req_ok_def)
    from consistent_body[OF c body] st have
      "req_ok opts mc ?ts' pc st"
      using res body keep[OF body]
      by (cases st) (auto simp: body_ok_def req_ok_def)
    with True pc lt show ?thesis by simp
  qed
qed

lemma inv_record_call [simp]: "state_ok opts (record_call c s) = state_ok opts s"
  by (simp add: state_ok_def)

lemma inv_calls_update [simp]: "state_ok opts (s\<lparr>calls := cs\<rparr>) = state_ok opts s"
  by (simp add: state_ok_def)

lemma inv_store_update [simp]: "state_ok opts (s\<lparr>store := st\<rparr>) = state_ok opts s"
  by (simp add: state_ok_def)

lemma inv_suspend:
  "state_ok opts s \<Longrightarrow> running_body (tasks s) b res \<Longrightarrow> (\<And>p. c \<noteq> AwaitLoading p) \<Longrightarrow>
   state_ok opts (suspend b c s)"
  unfolding state_ok_def by (simp add: consistent_body_progress)

lemma inv_reject:
  "state_ok opts s \<Longrightarrow> running_body (tasks s) b res \<Longrightarrow> state_ok opts (reject b ex s)"
  unfolding state_ok_def by (simp add: consistent_body_progress)

lemma inv_fulfil:
  "state_ok opts s \<Longrightarrow> running_body (tasks s) b res \<Longrightarrow>
   state_ok opts (fulfil b v (s\<lparr>moduleCache := (moduleCache s)(res_id res \<mapsto> Value v)\<rparr>))"
  unfolding state_ok_def by (simp add: consistent_body_fulfil)

lemma inv_complete:
  "state_ok opts s \<Longrightarrow> running_body (tasks s) b res \<Longrightarrow> state_ok opts (complete b res extname v s)"
  by (simp add: complete_def inv_reject inv_fulfil)

lemma inv_loadModuleInternal:
  assumes "state_ok opts s"
  shows "state_ok opts (loadModuleInternal opts pc s)"
proof (cases "getResource opts pc")
  case (Inl ex)
  have "req_ok opts (moduleCache s) (tasks s) pc (Rejected ex)"
    using Inl by (simp add: req_ok_def)
  with assms Inl show ?thesis
    by (simp add: loadModuleInternal_def state_ok_def consistent_new_request)
next
  case (Inr res)
  show ?thesis
  proof (cases "moduleCache s (res_id res)")
    case None
    let ?b = "length (tasks s)"
    let ?mc = "(moduleCache s)(res_id res \<mapsto> Loading ?b)"
    have body: "consistent opts ?mc (tasks s @ [\<lparr>kind = LoadBody res, status = Running k\<rparr>])"
      if "\<And>p. k \<noteq> AwaitLoading p" for k
      using assms None that unfolding state_ok_def by (rule consistent_new_body)
    have req: "req_ok opts ?mc (tasks s @ [\<lparr>kind = LoadBody res, status = Running k\<rparr>]) pc
                 (Running (AwaitLoading ?b))" for k
      using Inr by (simp add: req_ok_def is_body_append_body)
    show ?thesis
      using Inr None consistent_new_request[OF body req]
      by (simp add: loadModuleInternal_def state_ok_def startBody_def Let_def split: option.splits)
  next
    case (Some e)
    show ?thesis
    proof (cases e)
      case (Loading p)
      with Some assms have "is_body (tasks s) p (res_id res)"
        by (simp add: state_ok_def consistent_cache)
      with Inr have "req_ok opts (moduleCache s) (tasks s) pc (Running (AwaitLoading p))"
        by (simp add: req_ok_def)
      with assms Inr Some Loading show ?thesis
        by (simp add: loadModuleInternal_def state_ok_def consistent_new_request)
    next
      case (Value v)
      with Inr Some have "req_ok opts (moduleCache s) (tasks s) pc (Fulfilled v)"
        by (simp add: req_ok_def)
      with assms Inr Some Value show ?thesis
        by (simp add: loadModuleInternal_def state_ok_def consistent_new_request)
    qed
  qed
qed

text \<open>Tasks are only ever appended, and a step changes only the task it runs.\<close>

lemma tasks_loadModuleInternal:
  "\<exists>new. tasks (loadModuleInternal opts pc s) = tasks s @ new \<and> new \<noteq> []"
  by (simp add: loadModuleInternal_def startBody_def Let_def
           split: sum.splits option.splits entry.splits)

lemma tasks_startDeps:
  "\<exists>new. tasks (fst (startDeps opts rp deps s)) = tasks s @ new"
proof (induction deps arbitrary: s)
  case Nil
  show ?case by simp
next
  case (Cons d deps)
  obtain n1 where n1: "tasks (loadModuleInternal opts \<lparr>refPath = rp, relPath = d\<rparr> s) = tasks s @ n1"
    using tasks_loadModuleInternal by blast
  obtain n2 where "tasks (fst (startDeps opts rp deps (loadModuleInternal opts \<lparr>refPath = rp, relPath = d\<rparr> s)))
      = tasks (loadModuleInternal opts \<lparr>refPath = rp, relPath = d\<rparr> s) @ n2"
    using Cons.IH by blast
  with n1 show ?case by (simp add: case_prod_beta Let_def)
qed

lemma inv_startDeps:
  "state_ok opts s \<Longrightarrow> state_ok opts (fst (startDeps opts rp deps s))"
proof (induction deps arbitrary: s)
  case Nil
  then show ?case by simp
next
  case (Cons d deps)
  from Cons.prems have "state_ok opts (loadModuleInternal opts \<lparr>refPath = rp, relPath = d\<rparr> s)"
    by (rule inv_loadModuleInternal)
  from Cons.IH[OF this] show ?case by (simp add: case_prod_beta Let_def)
qed

lemma running_body_append: "running_body ts b res \<Longrightarrow> running_body (ts @ new) b res"
  by (simp add: running_body_def nth_append)

lemma inv_loadDeps:
  assumes "state_ok opts s" "running_body (tasks s) b res"
  shows "state_ok opts (loadDeps opts b res extname value s)"
proof -
  obtain new where new: "tasks (fst (startDeps opts (res_path res) (fst value) s)) = tasks s @ new"
    using tasks_startDeps by blast
  have "running_body (tasks (fst (startDeps opts (res_path res) (fst value) s))) b res"
    unfolding new using assms(2) by (rule running_body_append)
  with inv_startDeps[OF assms(1)] show ?thesis
    by (simp add: loadDeps_def case_prod_beta inv_suspend)
qed

lemma inv_callValueFactory:
  "state_ok opts s \<Longrightarrow> running_body (tasks s) b res \<Longrightarrow>
   state_ok opts (callValueFactory opts b res extname source mst key s)"
  by (simp add: callValueFactory_def case_prod_beta inv_suspend)

lemma inv_createJSModule:
  "state_ok opts s \<Longrightarrow> running_body (tasks s) b res \<Longrightarrow>
   state_ok opts (createJSModule opts b res extname source mst s)"
  by (simp add: createJSModule_def Let_def inv_callValueFactory inv_suspend)

lemma state_ok_defaultHandleModule:
  "state_ok opts s \<Longrightarrow> running_body (tasks s) b res \<Longrightarrow>
   state_ok opts (defaultHandleModule opts b res extname source s)"
  by (simp add: defaultHandleModule_def Let_def inv_createJSModule inv_suspend inv_complete)

lemma inv_resume_body:
  assumes i: "state_ok opts s" and rb: "running_body (tasks s) b res"
    and c: "\<And>p. c \<noteq> AwaitLoading p"
  shows "state_ok opts (resume opts b (LoadBody res) c s)"
proof (cases c)
  case (AwaitLoading p)
  with c show ?thesis by blast
next
  case (AwaitLoadModule r)
  with i rb show ?thesis
    by (auto simp: inv_reject inv_fulfil inv_suspend split: sum.splits)
next
  case (AwaitGetContent r)
  with i rb show ?thesis
    by (auto simp: inv_reject inv_suspend state_ok_defaultHandleModule
             split: sum.splits jsval.splits option.splits)
next
  case (AwaitHandleModule extname source r)
  with i rb show ?thesis
    by (auto simp: inv_reject inv_complete state_ok_defaultHandleModule split: sum.splits)
next
  case (AwaitCreateSFCModule extname r)
  with i rb show ?thesis
    by (auto simp: inv_reject inv_complete split: sum.splits)
next
  case (AwaitCacheGet extname source mst key valueStr)
  with i rb show ?thesis
    by (auto simp: inv_reject inv_callValueFactory inv_loadDeps split: sum.splits option.splits)
next
  case (AwaitValueFactory extname key r)
  with i rb show ?thesis
    by (auto simp: inv_reject inv_suspend inv_loadDeps split: sum.splits option.splits)
next
  case (AwaitCacheSet extname v)
  with i rb show ?thesis by (simp add: inv_loadDeps)
next
  case (AwaitLoadDeps extname src ps)
  with i rb show ?thesis
    by (auto simp: inv_reject inv_complete Let_def split: sum.splits option.splits)
qed

lemma state_ok_resume_request:
  assumes i: "state_ok opts s" and lt: "r < length (tasks s)" and k: "kind (tasks s ! r) = Request pc"
    and st: "status (tasks s ! r) = Running c"
  shows "state_ok opts (resume opts r (Request pc) c s)"
proof -
  from consistent_request[OF i[unfolded state_ok_def] lt k] st obtain p and res :: resource where
    c: "c = AwaitLoading p" and "is_body (tasks s) p (res_id res)"
    by (auto simp: req_ok_def)
  then have p: "p < length (tasks s)" by (simp add: is_body_lt)
  show ?thesis
  proof (cases "status (tasks s ! p)")
    case (Running k)
    with c p i show ?thesis by simp
  next
    case (Fulfilled v)
    have "consistent opts (moduleCache s) ((tasks s)[r := (tasks s ! r)\<lparr>status := Fulfilled v\<rparr>])"
      using i[unfolded state_ok_def] lt k st[unfolded c] Fulfilled
      by (rule consistent_request_settle) simp
    with c p Fulfilled show ?thesis by (simp add: state_ok_def)
  next
    case (Rejected ex)
    have "consistent opts (moduleCache s) ((tasks s)[r := (tasks s ! r)\<lparr>status := Rejected ex\<rparr>])"
      using i[unfolded state_ok_def] lt k st[unfolded c] Rejected
      by (rule consistent_request_settle) simp
    with c p Rejected show ?thesis by (simp add: state_ok_def)
  qed
qed

lemma running_body_not_AwaitLoading:
  assumes "state_ok opts s" "t < length (tasks s)" "kind (tasks s ! t) = LoadBody res"
    "status (tasks s ! t) = Running c"
  shows "c \<noteq> AwaitLoading p"
  using consistent_body[OF assms(1)[unfolded state_ok_def] is_bodyI[OF assms(2,3)]] assms(4)
  by (simp add: body_ok_def)

lemma state_ok_step:
  assumes "state_ok opts s"
  shows "state_ok opts (step opts ev s)"
proof (cases ev)
  case (Call pc)
  with assms show ?thesis by (simp add: step_def inv_loadModuleInternal)
next
  case (Resume t)
  show ?thesis
  proof (cases "t < length (tasks s)")
    case False
    with Resume assms show ?thesis by (simp add: step_def)
  next
    case True
    show ?thesis
    proof (cases "status (tasks s ! t)")
      case (Running c)
      show ?thesis
      proof (cases "kind (tasks s ! t)")
        case (Request pc)
        with state_ok_resume_request[OF assms True Request Running] Resume True Running
        show ?thesis by (simp add: step_def)
      next
        case (LoadBody res)
        have "running_body (tasks s) t res"
          using True LoadBody Running by (simp add: running_body_def)
        from inv_resume_body[OF assms this running_body_not_AwaitLoading[OF assms True LoadBody Running]]
        show ?thesis using Resume True Running LoadBody by (simp add: step_def)
      qed
    qed (use Resume True assms in \<open>simp_all add: step_def\<close>)
  qed
qed

lemma state_ok_run: "state_ok opts s \<Longrightarrow> state_ok opts (run opts evs s)"
  unfolding run_def
  by (induction evs arbitrary: s) (simp_all add: state_ok_step)

lemma state_ok_init: "state_ok opts (init preloaded st)"
  unfolding state_ok_def init_def
  by (rule consistentI) (auto simp: is_body_def)

lemma changes_only_refl [simp]: "changes_only s s T I"
  by (simp add: changes_only_def)

lemma changes_only_trans:
  assumes a: "changes_only s s1 T I" and b: "changes_only s1 s2 T I"
  shows "changes_only s s2 T I"
proof -
  have len: "length (tasks s) \<le> length (tasks s1)" "length (tasks s1) \<le> length (tasks s2)"
    using a b by (simp_all add: changes_only_def)
  have t1: "kind (tasks s1 ! t) = kind (tasks s ! t)" "t \<notin> T \<Longrightarrow> tasks s1 ! t = tasks s ! t"
    if "t < length (tasks s)" for t
    using a that by (simp_all add: changes_only_def)
  have t2: "kind (tasks s2 ! t) = kind (tasks s1 ! t)" "t \<notin> T \<Longrightarrow> tasks s2 ! t = tasks s1 ! t"
    if "t < length (tasks s1)" for t
    using b that by (simp_all add: changes_only_def)
  have c1: "moduleCache s1 j = moduleCache s j" "calls_for j s1 = calls_for j s"
    if "j \<notin> I" "moduleCache s j \<noteq> None" for j
    using a that by (simp_all add: changes_only_def)
  have c2: "moduleCache s2 j = moduleCache s1 j" "calls_for j s2 = calls_for j s1"
    if "j \<notin> I" "moduleCache s1 j \<noteq> None" for j
    using b that by (simp_all add: changes_only_def)
  obtain a1 a2 where "calls s1 = calls s @ a1" "calls s2 = calls s1 @ a2"
    using a b by (auto simp: changes_only_def)
  then have "calls s2 = calls s @ (a1 @ a2)" by simp
  then have ex: "\<exists>added. calls s2 = calls s @ added" ..
  show ?thesis
    unfolding changes_only_def
  proof (intro conjI allI impI)
    show "length (tasks s) \<le> length (tasks s2)" using len by simp
  next
    fix t assume "t < length (tasks s)"
    with len t1(1)[of t] t2(1)[of t] show "kind (tasks s2 ! t) = kind (tasks s ! t)" by simp
  next
    fix t assume "t < length (tasks s)" "t \<notin> T"
    with len t1(2)[of t] t2(2)[of t] show "tasks s2 ! t = tasks s ! t" by simp
  next
    fix j assume j: "j \<notin> I" "moduleCache s j \<noteq> None"
    with c1[of j] c2[of j] show "moduleCache s2 j = moduleCache s j" by simp
    from j c1[of j] c2[of j] show "calls_for j s2 = calls_for j s" by simp
  next
    show "\<exists>added. calls s2 = calls s @ added" by (rule ex)
  qed
qed

lemma changes_only_mono:
  "changes_only s s' T I \<Longrightarrow> T \<subseteq> T' \<Longrightarrow> I \<subseteq> I' \<Longrightarrow> changes_only s s' T' I'"
  unfolding changes_only_def by blast

lemma calls_for_record_call:
  "calls_for j (record_call c s) = calls_for j s @ (if call_id c = Some j then [c] else [])"
  by (simp add: calls_for_def)

lemma calls_for_simps [simp]:
  "calls_for j (spawn k st s) = calls_for j s"
  "calls_for j (suspend t c s) = calls_for j s"
  "calls_for j (fulfil t v s) = calls_for j s"
  "calls_for j (reject t ex s) = calls_for j s"
  "calls_for j (s\<lparr>moduleCache := mc\<rparr>) = calls_for j s"
  "calls_for j (s\<lparr>store := st'\<rparr>) = calls_for j s"
  by (simp_all add: calls_for_def)

lemma changes_only_record_call:
  "call_id c = None \<or> call_id c \<in> Some ` I \<Longrightarrow> changes_only s (record_call c s) T I"
  by (auto simp: changes_only_def calls_for_record_call)

lemma kind_update_status:
  "t < length ts \<Longrightarrow> kind (ts[b := (ts ! b)\<lparr>status := st\<rparr>] ! t) = kind (ts ! t)"
  by (cases "t = b") simp_all

lemma changes_only_suspend: "changes_only s (suspend b c s) {b} I"
  by (simp add: changes_only_def kind_update_status)

lemma changes_only_reject: "changes_only s (reject b ex s) {b} I"
  by (simp add: changes_only_def kind_update_status)

lemma changes_only_fulfil: "changes_only s (fulfil b v s) {b} I"
  by (simp add: changes_only_def kind_update_status)

lemma changes_only_fulfil_cache:
  "changes_only s (fulfil b v (s\<lparr>moduleCache := (moduleCache s)(i \<mapsto> e)\<rparr>)) {b} {i}"
  by (simp add: changes_only_def kind_update_status)

lemma changes_only_complete: "changes_only s (complete b res extname v s) {b} {res_id res}"
  by (simp add: complete_def changes_only_reject changes_only_fulfil_cache)

lemma changes_only_loadModuleInternal: "changes_only s (loadModuleInternal opts pc s) {} {}"
  by (auto simp: changes_only_def loadModuleInternal_def startBody_def Let_def nth_append
                 calls_for_record_call
           split: sum.splits option.splits entry.splits)

lemma changes_only_startDeps: "changes_only s (fst (startDeps opts rp deps s)) {} {}"
proof (induction deps arbitrary: s)
  case Nil
  show ?case by simp
next
  case (Cons d deps)
  have "changes_only s (loadModuleInternal opts \<lparr>refPath = rp, relPath = d\<rparr> s) {} {}"
    by (rule changes_only_loadModuleInternal)
  from changes_only_trans[OF this Cons.IH] show ?case
    by (simp add: case_prod_beta Let_def)
qed

lemma changes_only_loadDeps:
  "changes_only s (loadDeps opts b res extname value s) {b} {res_id res}"
proof -
  let ?s1 = "fst (startDeps opts (res_path res) (fst value) s)"
  have "changes_only s ?s1 {b} {res_id res}"
    using changes_only_startDeps by (rule changes_only_mono) simp_all
  moreover have "changes_only ?s1 (suspend b (AwaitLoadDeps extname (snd value)
      (snd (startDeps opts (res_path res) (fst value) s))) ?s1) {b} {res_id res}"
    by (rule changes_only_suspend)
  ultimately show ?thesis
    unfolding loadDeps_def case_prod_beta Let_def by (rule changes_only_trans)
qed

lemma changes_only_calls_update:
  "\<forall>c\<in>set added. call_id c = None \<or> call_id c \<in> Some ` I \<Longrightarrow>
   changes_only s (s\<lparr>calls := calls s @ added\<rparr>) T I"
  by (auto simp: changes_only_def calls_for_def filter_empty_conv)

lemma transformJSCode_logged:
  "c \<in> set (fst (transformJSCode opts source mst filename)) \<Longrightarrow> call_id c = None"
  by (auto simp: transformJSCode_def Let_def split: sum.splits if_splits)

lemma changes_only_callValueFactory:
  "changes_only s (callValueFactory opts b res extname source mst key s) {b} {res_id res}"
proof -
  let ?logged = "CTransformJSCode (res_id res) # fst (transformJSCode opts source mst (res_path res))"
  have "changes_only s (s\<lparr>calls := calls s @ ?logged\<rparr>) {b} {res_id res}"
    by (rule changes_only_calls_update) (auto dest: transformJSCode_logged)
  moreover have "changes_only (s\<lparr>calls := calls s @ ?logged\<rparr>)
      (suspend b (AwaitValueFactory extname key (snd (transformJSCode opts source mst (res_path res))))
         (s\<lparr>calls := calls s @ ?logged\<rparr>)) {b} {res_id res}"
    by (rule changes_only_suspend)
  ultimately show ?thesis
    unfolding callValueFactory_def case_prod_beta Let_def by (rule changes_only_trans)
qed

lemma changes_only_createJSModule:
  "changes_only s (createJSModule opts b res extname source mst s) {b} {res_id res}"
  by (simp add: createJSModule_def Let_def changes_only_callValueFactory changes_only_suspend)

lemma changes_only_defaultHandleModule:
  "changes_only s (defaultHandleModule opts b res extname source s) {b} {res_id res}"
proof -
  let ?s1 = "record_call (CDefaultHandleModule (res_id res)) s"
  have 1: "changes_only s ?s1 {b} {res_id res}"
    by (rule changes_only_record_call) simp
  have "changes_only ?s1 (defaultHandleModule opts b res extname source s) {b} {res_id res}"
    by (simp add: defaultHandleModule_def Let_def changes_only_createJSModule changes_only_suspend
          changes_only_complete)
  with 1 show ?thesis by (rule changes_only_trans)
qed

lemma changes_only_store: "changes_only s (s\<lparr>store := st\<rparr>) T I"
  by (simp add: changes_only_def)

lemma changes_only_then_suspend:
  "changes_only s s1 {b} I \<Longrightarrow> changes_only s (suspend b c s1) {b} I"
  by (erule changes_only_trans) (rule changes_only_suspend)

lemma changes_only_then_reject:
  "changes_only s s1 {b} I \<Longrightarrow> changes_only s (reject b ex s1) {b} I"
  by (erule changes_only_trans) (rule changes_only_reject)

lemma changes_only_then_complete:
  "changes_only s s1 {b} {res_id res} \<Longrightarrow> changes_only s (complete b res extname v s1) {b} {res_id res}"
  by (erule changes_only_trans) (rule changes_only_complete)

lemma changes_only_resume_body:
  "changes_only s (resume opts b (LoadBody res) c s) {b} {res_id res}"
proof (cases c)
  case (AwaitLoading p)
  then show ?thesis
    by (simp add: changes_only_reject changes_only_fulfil split: status.splits)
next
  case (AwaitLoadModule r)
  then show ?thesis
    by (auto simp: changes_only_reject changes_only_fulfil_cache changes_only_then_suspend
          changes_only_record_call split: sum.splits)
next
  case (AwaitGetContent r)
  then show ?thesis
    by (auto simp: changes_only_reject changes_only_then_suspend changes_only_record_call
          changes_only_defaultHandleModule split: sum.splits jsval.splits option.splits)
next
  case (AwaitHandleModule extname source r)
  then show ?thesis
    by (auto simp: changes_only_reject changes_only_complete changes_only_defaultHandleModule
          split: sum.splits)
next
  case (AwaitCreateSFCModule extname r)
  then show ?thesis
    by (auto simp: changes_only_reject changes_only_complete split: sum.splits)
next
  case (AwaitCacheGet extname source mst key valueStr)
  then show ?thesis
    by (auto simp: changes_only_reject changes_only_callValueFactory changes_only_loadDeps
          split: sum.splits option.splits)
next
  case (AwaitValueFactory extname key r)
  then show ?thesis
    by (auto simp: changes_only_reject changes_only_loadDeps changes_only_then_suspend
          changes_only_store split: sum.splits option.splits)
next
  case (AwaitCacheSet extname v)
  then show ?thesis by (simp add: changes_only_loadDeps)
next
  case (AwaitLoadDeps extname src ps)
  then show ?thesis
    by (auto simp: changes_only_then_reject changes_only_then_complete changes_only_record_call
          changes_only_reject Let_def split: sum.splits option.splits)
qed

lemma changes_only_resume_request:
  "changes_only s (resume opts r (Request pc) c s) {r} {}"
  by (cases c) (simp_all add: changes_only_reject changes_only_fulfil split: status.splits)

lemma changes_only_step: "changes_only s (step opts ev s) (ev_tasks ev) (ev_ids s ev)"
proof (cases ev)
  case (Call pc)
  then show ?thesis by (simp add: step_def ev_ids_def changes_only_loadModuleInternal)
next
  case (Resume t)
  show ?thesis
  proof (cases "t < length (tasks s)")
    case False
    with Resume show ?thesis by (simp add: step_def)
  next
    case True
    show ?thesis
    proof (cases "status (tasks s ! t)")
      case (Running c)
      show ?thesis
      proof (cases "kind (tasks s ! t)")
        case (Request pc)
        have "changes_only s (resume opts t (Request pc) c s) {t} (ev_ids s ev)"
          using changes_only_resume_request by (rule changes_only_mono) simp_all
        with Resume True Running Request show ?thesis by (simp add: step_def)
      next
        case (LoadBody res)
        with Resume True Running changes_only_resume_body[of s opts t res c]
        show ?thesis by (simp add: step_def ev_ids_def)
      qed
    qed (use Resume True in \<open>simp_all add: step_def\<close>)
  qed
qed

lemma step_length: "length (tasks s) \<le> length (tasks (step opts ev s))"
  using changes_only_step[of s opts ev] by (simp add: changes_only_def)

lemma step_kind: "t < length (tasks s) \<Longrightarrow> kind (tasks (step opts ev s) ! t) = kind (tasks s ! t)"
  using changes_only_step[of s opts ev] by (simp add: changes_only_def)

lemma step_other_task:
  "t < length (tasks s) \<Longrightarrow> ev \<noteq> Resume t \<Longrightarrow> tasks (step opts ev s) ! t = tasks s ! t"
  using changes_only_step[of s opts ev] by (cases ev) (simp_all add: changes_only_def)

lemma step_settled_task:
  assumes "t < length (tasks s)" "is_settled (status (tasks s ! t))"
  shows "tasks (step opts ev s) ! t = tasks s ! t"
proof (cases "ev = Resume t")
  case True
  with assms show ?thesis by (simp add: step_def is_settled_def split: status.splits)
next
  case False
  with assms(1) show ?thesis by (rule step_other_task)
qed

lemma final_entry_step:
  assumes "final_entry s e"
  shows "final_entry (step opts ev s) e"
proof (cases e)
  case (Value v)
  then show ?thesis by (simp add: final_entry_def)
next
  case (Loading b)
  with assms have b: "b < length (tasks s)" "is_settled (status (tasks s ! b))"
    by (simp_all add: final_entry_def)
  from step_settled_task[OF b] b step_length[of s opts ev] Loading show ?thesis
    by (simp add: final_entry_def)
qed

lemma final_not_touched:
  assumes ok: "state_ok opts s" and e: "moduleCache s i = Some e" and f: "final_entry s e"
  shows "i \<notin> ev_ids s ev"
proof
  assume "i \<in> ev_ids s ev"
  then obtain t res c where t: "t < length (tasks s)" "kind (tasks s ! t) = LoadBody res"
      "status (tasks s ! t) = Running c" "res_id res = i"
    by (auto simp: ev_ids_def split: event.splits if_splits kind.splits status.splits)
  then have "running_body (tasks s) t res" by (simp add: running_body_def)
  from running_body_cache[OF ok[unfolded state_ok_def] this] t(4) e have "e = Loading t" by simp
  with f t(3) show False by (simp add: final_entry_def is_settled_def)
qed

lemma final_step:
  assumes ok: "state_ok opts s" and e: "moduleCache s i = Some e" and f: "final_entry s e"
  shows "moduleCache (step opts ev s) i = Some e" "calls_for i (step opts ev s) = calls_for i s"
  using changes_only_step[of s opts ev] final_not_touched[OF assms, of ev] e
  by (simp_all add: changes_only_def)

lemma final_run:
  assumes "state_ok opts s" "moduleCache s i = Some e" "final_entry s e"
  shows "moduleCache (run opts evs s) i = Some e \<and> final_entry (run opts evs s) e \<and>
         calls_for i (run opts evs s) = calls_for i s"
  using assms
proof (induction evs arbitrary: s)
  case Nil
  then show ?case by (simp add: run_def)
next
  case (Cons ev evs)
  have "run opts (ev # evs) s = run opts evs (step opts ev s)" by (simp add: run_def)
  moreover have "state_ok opts (step opts ev s)" using Cons.prems(1) by (rule state_ok_step)
  moreover note final_step[OF Cons.prems, of ev] final_entry_step[OF Cons.prems(3), of opts ev]
  ultimately show ?case using Cons.IH[of "step opts ev s"] by simp
qed

lemma run_settled_task:
  "t < length (tasks s) \<Longrightarrow> is_settled (status (tasks s ! t)) \<Longrightarrow>
   t < length (tasks (run opts evs s)) \<and> tasks (run opts evs s) ! t = tasks s ! t"
proof (induction evs arbitrary: s)
  case Nil
  then show ?case by (simp add: run_def)
next
  case (Cons ev evs)
  have r: "run opts (ev # evs) s = run opts evs (step opts ev s)" by (simp add: run_def)
  from Cons.prems step_settled_task[OF Cons.prems, of opts ev] step_length[of s opts ev]
  have "t < length (tasks (step opts ev s))" "is_settled (status (tasks (step opts ev s) ! t))"
    "tasks (step opts ev s) ! t = tasks s ! t"
    by simp_all
  with Cons.IH[of "step opts ev s"] r show ?case by simp
qed

lemma run_kind:
  "t < length (tasks s) \<Longrightarrow>
   t < length (tasks (run opts evs s)) \<and> kind (tasks (run opts evs s) ! t) = kind (tasks s ! t)"
proof (induction evs arbitrary: s)
  case Nil
  then show ?case by (simp add: run_def)
next
  case (Cons ev evs)
  have r: "run opts (ev # evs) s = run opts evs (step opts ev s)" by (simp add: run_def)
  from Cons.prems step_kind[OF Cons.prems, of opts ev] step_length[of s opts ev]
  have "t < length (tasks (step opts ev s))" "kind (tasks (step opts ev s) ! t) = kind (tasks s ! t)"
    by simp_all
  with Cons.IH[of "step opts ev s"] r show ?case by simp
qed

lemma calls_okI:
  assumes "\<And>c i. call_id c = Some i \<Longrightarrow> count_list cs c \<le> 1"
    and "\<And>c i. call_id c = Some i \<Longrightarrow> c \<in> set cs \<Longrightarrow> \<exists>b. is_body ts b i \<and> call_ph c \<le> ph b"
  shows "calls_ok ts cs ph"
  using assms unfolding calls_ok_def by blast

lemma calls_ok_count: "calls_ok ts cs ph \<Longrightarrow> call_id c = Some i \<Longrightarrow> count_list cs c \<le> 1"
  unfolding calls_ok_def by blast

lemma calls_ok_body:
  "calls_ok ts cs ph \<Longrightarrow> call_id c = Some i \<Longrightarrow> c \<in> set cs \<Longrightarrow>
   \<exists>b. is_body ts b i \<and> call_ph c \<le> ph b"
  unfolding calls_ok_def by blast

lemma calls_ok_unkeyed:
  assumes "calls_ok ts cs ph" "\<And>c. c \<in> set added \<Longrightarrow> call_id c = None"
  shows "calls_ok ts (cs @ added) ph"
proof (rule calls_okI)
  fix c i assume c: "call_id c = Some i"
  with assms(2) have n: "c \<notin> set added" by force
  then show "count_list (cs @ added) c \<le> 1"
    using calls_ok_count[OF assms(1) c] by simp
  assume "c \<in> set (cs @ added)"
  with n have "c \<in> set cs" by simp
  from calls_ok_body[OF assms(1) c this] show "\<exists>b. is_body ts b i \<and> call_ph c \<le> ph b" .
qed

lemma calls_ok_keyed:
  assumes ok: "calls_ok ts cs ph"
    and uniq: "\<And>b1 b2 j. is_body ts b1 j \<Longrightarrow> is_body ts b2 j \<Longrightarrow> b1 = b2"
    and b: "is_body ts b i" and c: "call_id c = Some i" and lt: "ph b < call_ph c"
  shows "calls_ok ts (cs @ [c]) (ph(b := call_ph c))"
proof (rule calls_okI)
  have fresh: "c \<notin> set cs"
  proof
    assume "c \<in> set cs"
    from calls_ok_body[OF ok c this] obtain b' where "is_body ts b' i" "call_ph c \<le> ph b'" by blast
    with uniq[OF b] lt show False by force
  qed
  fix c' i' assume c': "call_id c' = Some i'"
  show "count_list (cs @ [c]) c' \<le> 1"
  proof (cases "c' = c")
    case True
    with fresh show ?thesis by simp
  next
    case False
    with calls_ok_count[OF ok c'] show ?thesis by simp
  qed
  assume m: "c' \<in> set (cs @ [c])"
  show "\<exists>b'. is_body ts b' i' \<and> call_ph c' \<le> (ph(b := call_ph c)) b'"
  proof (cases "c' = c")
    case True
    with c c' b show ?thesis by auto
  next
    case False
    with m have "c' \<in> set cs" by simp
    from calls_ok_body[OF ok c' this] obtain b' where "is_body ts b' i'" "call_ph c' \<le> ph b'" by blast
    with lt show ?thesis by (intro exI[of _ b']) auto
  qed
qed

lemma calls_ok_mono:
  assumes ok: "calls_ok ts cs ph"
    and bodies: "\<And>b i. is_body ts b i \<Longrightarrow> is_body ts' b i"
    and ph: "\<And>b i. is_body ts b i \<Longrightarrow> ph b \<le> ph' b"
  shows "calls_ok ts' cs ph'"
proof (rule calls_okI)
  fix c i assume c: "call_id c = Some i"
  from calls_ok_count[OF ok c] show "count_list cs c \<le> 1" .
  assume "c \<in> set cs"
  from calls_ok_body[OF ok c this] obtain b where "is_body ts b i" "call_ph c \<le> ph b" by blast
  with bodies[of b i] ph[of b i] show "\<exists>b. is_body ts' b i \<and> call_ph c \<le> ph' b"
    by (intro exI[of _ b]) auto
qed

lemma calls_ok_new_body:
  assumes ok: "calls_ok ts cs ph"
    and none: "\<And>b. \<not> is_body ts b i"
    and b': "is_body ts' b' i" and c: "call_id c = Some i" and le: "call_ph c \<le> ph' b'"
    and bodies: "\<And>b j. is_body ts b j \<Longrightarrow> is_body ts' b j"
    and ph: "\<And>b j. is_body ts b j \<Longrightarrow> ph b \<le> ph' b"
  shows "calls_ok ts' (cs @ [c]) ph'"
proof (rule calls_okI)
  have fresh: "c \<notin> set cs"
    using calls_ok_body[OF ok c] none by blast
  fix c' i' assume c': "call_id c' = Some i'"
  show "count_list (cs @ [c]) c' \<le> 1"
  proof (cases "c' = c")
    case True
    with fresh show ?thesis by simp
  next
    case False
    with calls_ok_count[OF ok c'] show ?thesis by simp
  qed
  assume m: "c' \<in> set (cs @ [c])"
  show "\<exists>b. is_body ts' b i' \<and> call_ph c' \<le> ph' b"
  proof (cases "c' = c")
    case True
    with c c' b' le show ?thesis by auto
  next
    case False
    with m have "c' \<in> set cs" by simp
    from calls_ok_body[OF ok c' this] obtain b where "is_body ts b i'" "call_ph c' \<le> ph b" by blast
    with bodies[of b i'] ph[of b i'] show ?thesis by (intro exI[of _ b]) auto
  qed
qed

lemma calls_inv_mid: "calls_inv s \<Longrightarrow> calls_mid s b (phase (status (tasks s ! b)))"
  unfolding calls_inv_def calls_mid_def
  by (erule calls_ok_mono) (simp_all add: phases_def)

lemma calls_mid_record_unkeyed:
  "calls_mid s b n \<Longrightarrow> call_id c = None \<Longrightarrow> calls_mid (record_call c s) b n"
  unfolding calls_mid_def using calls_ok_unkeyed[of "tasks s" "calls s" _ "[c]"]
  by (simp add: phases_def[abs_def])

lemma calls_mid_record_keyed:
  assumes "calls_mid s b n" "state_ok opts s" "is_body (tasks s) b i" "call_id c = Some i"
    "n < call_ph c"
  shows "calls_mid (record_call c s) b (call_ph c)"
proof -
  have "calls_ok (tasks s) (calls s @ [c]) (((phases s)(b := n))(b := call_ph c))"
    using assms(1)[unfolded calls_mid_def]
  proof (rule calls_ok_keyed)
    show "b1 = b2" if "is_body (tasks s) b1 j" "is_body (tasks s) b2 j" for b1 b2 j
      using consistent_unique[OF assms(2)[unfolded state_ok_def] that] .
  qed (use assms in simp_all)
  then show ?thesis by (simp add: calls_mid_def phases_def[abs_def])
qed

lemma calls_mid_close:
  assumes "calls_mid s b n" "n \<le> phase st"
    and s': "tasks s' = (tasks s)[b := (tasks s ! b)\<lparr>status := st\<rparr>]" "calls s' = calls s"
  shows "calls_inv s'"
  unfolding calls_inv_def s'
  using assms(1)[unfolded calls_mid_def]
proof (rule calls_ok_mono)
  fix b' i assume "is_body (tasks s) b' i"
  then have "b' < length (tasks s)" by (rule is_body_lt)
  with assms(2) show "((phases s)(b := n)) b' \<le> phases s' b'"
    by (cases "b' = b") (simp_all add: phases_def s')
qed simp

lemma cont_phase_le_9: "cont_phase c \<le> 9"
  by (cases c) simp_all

lemma phase_le_9: "phase st \<le> 9"
  by (cases st) (simp_all add: cont_phase_le_9)

lemma calls_inv_suspend: "calls_mid s b n \<Longrightarrow> n \<le> cont_phase c \<Longrightarrow> calls_inv (suspend b c s)"
  by (erule calls_mid_close[where st = "Running c"]) simp_all

lemma calls_inv_reject: "calls_mid s b n \<Longrightarrow> n \<le> 9 \<Longrightarrow> calls_inv (reject b ex s)"
  by (erule calls_mid_close[where st = "Rejected ex"]) simp_all

lemma calls_inv_fulfil:
  "calls_mid s b n \<Longrightarrow> n \<le> 9 \<Longrightarrow> calls_inv (fulfil b v (s\<lparr>moduleCache := mc\<rparr>))"
  by (erule calls_mid_close[where st = "Fulfilled v"]) simp_all

lemma calls_inv_complete: "calls_mid s b n \<Longrightarrow> n \<le> 9 \<Longrightarrow> calls_inv (complete b res extname v s)"
  by (simp add: complete_def calls_inv_reject calls_inv_fulfil)

lemma loadModuleInternal_cases:
  obtains (request) st where
      "tasks (loadModuleInternal opts pc s) = tasks s @ [\<lparr>kind = Request pc, status = st\<rparr>]"
      "calls (loadModuleInternal opts pc s) = calls s @ [CGetResource pc]"
      "moduleCache (loadModuleInternal opts pc s) = moduleCache s"
      "\<And>res. getResource opts pc = Inr res \<Longrightarrow> moduleCache s (res_id res) \<noteq> None"
  | (body) res c k where
      "getResource opts pc = Inr res" "moduleCache s (res_id res) = None"
      "tasks (loadModuleInternal opts pc s) =
         tasks s @ [\<lparr>kind = LoadBody res, status = Running k\<rparr>,
                    \<lparr>kind = Request pc, status = Running (AwaitLoading (length (tasks s)))\<rparr>]"
      "calls (loadModuleInternal opts pc s) = calls s @ [CGetResource pc, c]"
      "moduleCache (loadModuleInternal opts pc s) =
         (moduleCache s)(res_id res \<mapsto> Loading (length (tasks s)))"
      "call_id c = Some (res_id res)" "call_ph c \<le> cont_phase k"
proof (cases "getResource opts pc")
  case (Inl ex)
  then show ?thesis
    by (intro request[of "Rejected ex"]) (simp_all add: loadModuleInternal_def)
next
  case (Inr res)
  show ?thesis
  proof (cases "moduleCache s (res_id res)")
    case (Some e)
    with Inr show ?thesis
      by (cases e)
        ((rule request[of "case e of Loading p \<Rightarrow> Running (AwaitLoading p) | Value v \<Rightarrow> Fulfilled v"];
          simp add: loadModuleInternal_def)+)
  next
    case None
    show ?thesis
    proof (cases "loadModule opts")
      case N: None
      with Inr None show ?thesis
        by (intro body[of res "AwaitGetContent (getContent res)" "CGetContent (res_id res)"])
          (simp_all add: loadModuleInternal_def startBody_def Let_def)
    next
      case (Some lm)
      with Inr None show ?thesis
        by (intro body[of res "AwaitLoadModule (lm (res_id res))" "CLoadModule (res_id res)"])
          (simp_all add: loadModuleInternal_def startBody_def Let_def)
    qed
  qed
qed

lemma calls_ok_loadModuleInternal:
  assumes ok: "calls_ok (tasks s) (calls s) ph" and st: "state_ok opts s"
    and old: "\<And>t. t < length (tasks s) \<Longrightarrow> ph t \<le> ph' t"
    and new: "\<And>t. length (tasks s) \<le> t \<Longrightarrow> t < length (tasks (loadModuleInternal opts pc s)) \<Longrightarrow>
                phase (status (tasks (loadModuleInternal opts pc s) ! t)) \<le> ph' t"
  shows "calls_ok (tasks (loadModuleInternal opts pc s)) (calls (loadModuleInternal opts pc s)) ph'"
proof (cases rule: loadModuleInternal_cases[of opts pc s])
  case (request st')
  have "calls_ok (tasks s) (calls s @ [CGetResource pc]) ph"
    using ok by (rule calls_ok_unkeyed) simp
  then show ?thesis
    unfolding request
    by (rule calls_ok_mono) (simp_all add: old is_body_lt)
next
  case (body res c k)
  let ?ts' = "tasks s @ [\<lparr>kind = LoadBody res, status = Running k\<rparr>,
                    \<lparr>kind = Request pc, status = Running (AwaitLoading (length (tasks s)))\<rparr>]"
  have grow: "is_body ?ts' b j" if "is_body (tasks s) b j" for b j
    using that by (auto simp: is_body_def nth_append)
  have 1: "calls_ok (tasks s) (calls s @ [CGetResource pc]) ph"
    using ok by (rule calls_ok_unkeyed) simp
  have "calls_ok ?ts' ((calls s @ [CGetResource pc]) @ [c]) ph'"
    using 1
  proof (rule calls_ok_new_body)
    show "\<not> is_body (tasks s) b (res_id res)" for b
      using consistent_no_body[OF st[unfolded state_ok_def] body(2)] .
    show "is_body ?ts' (length (tasks s)) (res_id res)"
      by (simp add: is_body_def nth_append)
    show "call_id c = Some (res_id res)" by (rule body)
    have "phase (status (?ts' ! length (tasks s))) \<le> ph' (length (tasks s))"
      using new[of "length (tasks s)"] unfolding body by simp
    with body(7) show "call_ph c \<le> ph' (length (tasks s))" by (simp add: nth_append)
  qed (simp_all add: grow old is_body_lt)
  then show ?thesis unfolding body by simp
qed

lemma calls_inv_loadModuleInternal:
  assumes "calls_inv s" "state_ok opts s"
  shows "calls_inv (loadModuleInternal opts pc s)"
  unfolding calls_inv_def
  using assms(1)[unfolded calls_inv_def] assms(2)
proof (rule calls_ok_loadModuleInternal)
  fix t assume "t < length (tasks s)"
  with changes_only_loadModuleInternal[of s opts pc]
  have "tasks (loadModuleInternal opts pc s) ! t = tasks s ! t"
    by (simp add: changes_only_def)
  then show "phases s t \<le> phases (loadModuleInternal opts pc s) t" by (simp add: phases_def)
qed (simp add: phases_def)

lemma calls_mid_loadModuleInternal:
  assumes "calls_mid s b n" "state_ok opts s" "b < length (tasks s)"
  shows "calls_mid (loadModuleInternal opts pc s) b n"
  unfolding calls_mid_def
  using assms(1)[unfolded calls_mid_def] assms(2)
proof (rule calls_ok_loadModuleInternal)
  fix t assume "t < length (tasks s)"
  with changes_only_loadModuleInternal[of s opts pc]
  have "tasks (loadModuleInternal opts pc s) ! t = tasks s ! t"
    by (simp add: changes_only_def)
  then show "((phases s)(b := n)) t \<le> ((phases (loadModuleInternal opts pc s))(b := n)) t"
    by (simp add: phases_def)
next
  fix t assume "length (tasks s) \<le> t"
  with assms(3) have "t \<noteq> b" by simp
  then show "phase (status (tasks (loadModuleInternal opts pc s) ! t))
      \<le> ((phases (loadModuleInternal opts pc s))(b := n)) t"
    by (simp add: phases_def)
qed

lemma calls_mid_startDeps:
  "calls_mid s b n \<Longrightarrow> state_ok opts s \<Longrightarrow> b < length (tasks s) \<Longrightarrow>
   calls_mid (fst (startDeps opts rp deps s)) b n"
proof (induction deps arbitrary: s)
  case Nil
  then show ?case by simp
next
  case (Cons d deps)
  let ?s1 = "loadModuleInternal opts \<lparr>refPath = rp, relPath = d\<rparr> s"
  have "calls_mid ?s1 b n" using Cons.prems by (rule calls_mid_loadModuleInternal)
  moreover have "state_ok opts ?s1" using Cons.prems(2) by (rule inv_loadModuleInternal)
  moreover have "b < length (tasks ?s1)"
    using Cons.prems(3) changes_only_loadModuleInternal[of s opts "\<lparr>refPath = rp, relPath = d\<rparr>"]
    unfolding changes_only_def by linarith
  ultimately show ?case using Cons.IH[of ?s1] by (simp add: case_prod_beta Let_def)
qed

lemma calls_inv_loadDeps:
  assumes "calls_mid s b n" "n \<le> 7" "state_ok opts s" "b < length (tasks s)"
  shows "calls_inv (loadDeps opts b res extname value s)"
proof -
  have "calls_mid (fst (startDeps opts (res_path res) (fst value) s)) b n"
    using assms(1,3,4) by (rule calls_mid_startDeps)
  then have "calls_inv (suspend b (AwaitLoadDeps extname (snd value)
      (snd (startDeps opts (res_path res) (fst value) s)))
      (fst (startDeps opts (res_path res) (fst value) s)))"
    by (rule calls_inv_suspend) (simp add: assms(2))
  then show ?thesis by (simp add: loadDeps_def case_prod_beta Let_def)
qed

lemma calls_mid_calls_unkeyed:
  "calls_mid s b n \<Longrightarrow> (\<And>c. c \<in> set added \<Longrightarrow> call_id c = None) \<Longrightarrow>
   calls_mid (s\<lparr>calls := calls s @ added\<rparr>) b n"
  unfolding calls_mid_def using calls_ok_unkeyed[of "tasks s" "calls s" _ added]
  by (simp add: phases_def[abs_def])

lemma calls_inv_callValueFactory:
  assumes "calls_mid s b n" "n < 5" "state_ok opts s" "is_body (tasks s) b (res_id res)"
  shows "calls_inv (callValueFactory opts b res extname source mst key s)"
proof -
  let ?s1 = "record_call (CTransformJSCode (res_id res)) s"
  let ?logged = "fst (transformJSCode opts source mst (res_path res))"
  have "calls_mid ?s1 b (call_ph (CTransformJSCode (res_id res)))"
    using assms(1,3,4) by (rule calls_mid_record_keyed) (simp_all add: assms(2))
  then have "calls_mid (?s1\<lparr>calls := calls ?s1 @ ?logged\<rparr>) b 5"
    using calls_mid_calls_unkeyed[of ?s1 b 5 ?logged] transformJSCode_logged by simp
  then have "calls_inv (suspend b (AwaitValueFactory extname key
      (snd (transformJSCode opts source mst (res_path res)))) (?s1\<lparr>calls := calls ?s1 @ ?logged\<rparr>))"
    by (rule calls_inv_suspend) simp
  then show ?thesis
    by (simp add: callValueFactory_def case_prod_beta Let_def record_call_def)
qed

lemma calls_inv_createJSModule:
  assumes "calls_mid s b n" "n < 5" "state_ok opts s" "is_body (tasks s) b (res_id res)"
  shows "calls_inv (createJSModule opts b res extname source mst s)"
  using assms calls_inv_callValueFactory[OF assms] calls_inv_suspend[OF assms(1)]
  by (simp add: createJSModule_def Let_def)

lemma calls_inv_defaultHandleModule:
  assumes "calls_mid s b n" "n < 3" "state_ok opts s" "is_body (tasks s) b (res_id res)"
  shows "calls_inv (defaultHandleModule opts b res extname source s)"
proof -
  let ?s1 = "record_call (CDefaultHandleModule (res_id res)) s"
  have m: "calls_mid ?s1 b (call_ph (CDefaultHandleModule (res_id res)))"
    using assms(1,3,4) by (rule calls_mid_record_keyed) (simp_all add: assms(2))
  have ok: "state_ok opts ?s1" "is_body (tasks ?s1) b (res_id res)"
    using assms by simp_all
  show ?thesis
    using calls_inv_createJSModule[OF m _ ok] calls_inv_suspend[OF m] calls_inv_complete[OF m]
    by (simp add: defaultHandleModule_def Let_def)
qed

lemma calls_mid_store [simp]: "calls_mid (s\<lparr>store := st\<rparr>) b n = calls_mid s b n"
  by (simp add: calls_mid_def phases_def[abs_def])

lemma calls_inv_resume_body:
  assumes ci: "calls_inv s" and ok: "state_ok opts s" and rb: "running_body (tasks s) b res"
    and st: "status (tasks s ! b) = Running c"
  shows "calls_inv (resume opts b (LoadBody res) c s)"
proof -
  have mid: "calls_mid s b (cont_phase c)"
    using calls_inv_mid[OF ci, of b] st by simp
  have body: "is_body (tasks s) b (res_id res)"
    using rb by (rule running_body_is_body)
  have lt: "b < length (tasks s)" using body by (rule is_body_lt)
  have keyed: "calls_mid (record_call k s) b (call_ph k)"
    if "call_id k = Some (res_id res)" "cont_phase c < call_ph k" for k
    using mid ok body that by (rule calls_mid_record_keyed)
  show ?thesis
  proof (cases c)
    case (AwaitLoading p)
    with mid ci show ?thesis
      using calls_inv_reject[of s b 0] calls_inv_fulfil[of s b 0 _ "moduleCache s"]
      by (simp split: status.splits)
  next
    case (AwaitLoadModule r)
    with mid keyed[of "CGetContent (res_id res)"] show ?thesis
      by (auto simp: calls_inv_reject calls_inv_fulfil calls_inv_suspend split: sum.splits)
  next
    case (AwaitGetContent r)
    with mid keyed[of "CHandleModule (res_id res)"] ok body show ?thesis
      by (auto simp: calls_inv_reject calls_inv_suspend calls_inv_defaultHandleModule
               split: sum.splits jsval.splits option.splits)
  next
    case (AwaitHandleModule extname source r)
    with mid ok body show ?thesis
      by (auto simp: calls_inv_reject calls_inv_complete calls_inv_defaultHandleModule
               split: sum.splits)
  next
    case (AwaitCreateSFCModule extname r)
    with mid show ?thesis
      by (auto simp: calls_inv_reject calls_inv_complete split: sum.splits)
  next
    case (AwaitCacheGet extname source mst key valueStr)
    with mid ok body lt show ?thesis
      by (auto simp: calls_inv_reject calls_inv_callValueFactory calls_inv_loadDeps
               split: sum.splits option.splits)
  next
    case (AwaitValueFactory extname key r)
    with mid ok lt show ?thesis
      by (auto simp: calls_inv_reject calls_inv_loadDeps calls_inv_suspend
               split: sum.splits option.splits)
  next
    case (AwaitCacheSet extname v)
    with mid ok lt show ?thesis by (simp add: calls_inv_loadDeps)
  next
    case (AwaitLoadDeps extname src ps)
    with mid keyed[of "CExecute (res_id res)"] ci show ?thesis
      by (auto simp: calls_inv_reject calls_inv_complete Let_def split: sum.splits option.splits)
  qed
qed

lemma calls_inv_resume_request:
  assumes ci: "calls_inv s"
  shows "calls_inv (resume opts r (Request pc) c s)"
proof (cases c)
  case (AwaitLoading p)
  have "calls_mid s r (phase (status (tasks s ! r)))" using ci by (rule calls_inv_mid)
  then have "calls_inv (reject r ex s)" "calls_inv (fulfil r v s)" for ex v
    using calls_inv_reject[of s r _ ex] calls_inv_fulfil[of s r _ v "moduleCache s"]
    by (simp_all add: phase_le_9)
  with AwaitLoading ci show ?thesis by (simp split: status.splits)
qed (use ci in simp_all)

lemma calls_inv_step:
  assumes "calls_inv s" "state_ok opts s"
  shows "calls_inv (step opts ev s)"
proof (cases ev)
  case (Call pc)
  with assms show ?thesis by (simp add: step_def calls_inv_loadModuleInternal)
next
  case (Resume t)
  show ?thesis
  proof (cases "t < length (tasks s)")
    case False
    with Resume assms show ?thesis by (simp add: step_def)
  next
    case True
    show ?thesis
    proof (cases "status (tasks s ! t)")
      case (Running c)
      show ?thesis
      proof (cases "kind (tasks s ! t)")
        case (Request pc)
        with calls_inv_resume_request[OF assms(1)] Resume True Running
        show ?thesis by (simp add: step_def)
      next
        case (LoadBody res)
        have "running_body (tasks s) t res"
          using True LoadBody Running by (simp add: running_body_def)
        from calls_inv_resume_body[OF assms this Running]
        show ?thesis using Resume True Running LoadBody by (simp add: step_def)
      qed
    qed (use Resume True assms in \<open>simp_all add: step_def\<close>)
  qed
qed

lemma calls_inv_init: "calls_inv (init preloaded st)"
  by (simp add: calls_inv_def init_def calls_ok_def)

lemma reachable_ok:
  "state_ok opts (run opts evs (init preloaded st)) \<and> calls_inv (run opts evs (init preloaded st))"
proof -
  have "state_ok opts s \<and> calls_inv s \<Longrightarrow> state_ok opts (run opts evs s) \<and> calls_inv (run opts evs s)" for s
  proof (induction evs arbitrary: s)
    case Nil
    then show ?case by (simp add: run_def)
  next
    case (Cons ev evs)
    have "run opts (ev # evs) s = run opts evs (step opts ev s)" by (simp add: run_def)
    with Cons.IH[of "step opts ev s"] Cons.prems show ?case
      by (simp add: state_ok_step calls_inv_step)
  qed
  then show ?thesis using state_ok_init calls_inv_init by blast
qed

lemma settled_inv_simps [simp]:
  "settled_inv (record_call c s) = settled_inv s"
  "settled_inv (s\<lparr>moduleCache := mc\<rparr>) = settled_inv s"
  "settled_inv (s\<lparr>store := st\<rparr>) = settled_inv s"
  "settled_inv (s\<lparr>calls := cs\<rparr>) = settled_inv s"
  by (simp_all add: settled_inv_def)

















lemma bodiesStarted_le_1:
  assumes "\<And>b1 b2. is_body (tasks s) b1 i \<Longrightarrow> is_body (tasks s) b2 i \<Longrightarrow> b1 = b2"
  shows "bodiesStarted s i \<le> 1"
proof -
  let ?P = "\<lambda>t. case kind t of LoadBody res \<Rightarrow> res_id res = i | Request pc \<Rightarrow> False"
  have P: "?P (tasks s ! b) \<longleftrightarrow> (\<exists>res. kind (tasks s ! b) = LoadBody res \<and> res_id res = i)" for b
    by (cases "kind (tasks s ! b)") simp_all
  have "bodiesStarted s i = card {b. b < length (tasks s) \<and> ?P (tasks s ! b)}"
    unfolding bodiesStarted_def by (rule length_filter_conv_card)
  also have "{b. b < length (tasks s) \<and> ?P (tasks s ! b)} = {b. is_body (tasks s) b i}"
    by (simp add: is_body_def P)
  also have "card \<dots> \<le> 1"
  proof (cases "\<exists>b. is_body (tasks s) b i")
    case True
    then obtain b where b: "is_body (tasks s) b i" ..
    with assms have "{b. is_body (tasks s) b i} = {b}" by blast
    then show ?thesis by simp
  next
    case False
    then have "{b. is_body (tasks s) b i} = {}" by simp
    then show ?thesis by simp
  qed
  finally show ?thesis .
qed


lemma resume_awaiting:
  assumes "p < length (tasks s)" "r < length (tasks s)" "is_settled (status (tasks s ! p))"
  shows "status (tasks (resume opts r k (AwaitLoading p) s) ! r) = status (tasks s ! p)"
  using assms by (cases "status (tasks s ! p)") (simp_all add: is_settled_def)

lemma resume_awaiting_other:
  assumes "p < length (tasks s)" "r \<noteq> p"
  shows "tasks (resume opts r k (AwaitLoading p) s) ! p = tasks s ! p"
  using assms by (cases "status (tasks s ! p)") simp_all

lemma awaits_step:
  assumes "awaits s r p"
  shows "awaits (step opts ev s) r p"
proof -
  from assms(1) have r: "r < length (tasks s)" and p: "p < length (tasks s)" and ne: "r \<noteq> p"
    by (simp_all add: awaits_def)
  have len: "length (tasks s) \<le> length (tasks (step opts ev s))" by (rule step_length)
  consider (waiting) "status (tasks s ! r) = Running (AwaitLoading p)"
    | (delivered) "is_settled (status (tasks s ! p))" "status (tasks s ! r) = status (tasks s ! p)"
    using assms(1) by (auto simp: awaits_def)
  then show ?thesis
  proof cases
    case waiting
    show ?thesis
    proof (cases "ev = Resume r")
      case False
      with step_other_task[OF r False] waiting r p ne len show ?thesis
        by (simp add: awaits_def)
    next
      case True
      show ?thesis
      proof (cases "is_settled (status (tasks s ! p))")
        case settled: True
        from \<open>ev = Resume r\<close> r waiting
        have "step opts ev s = resume opts r (kind (tasks s ! r)) (AwaitLoading p) s"
          by (simp add: step_def)
        with resume_awaiting[OF p r settled] step_settled_task[OF p settled, of opts ev]
          settled r p ne len
        show ?thesis by (simp add: awaits_def)
      next
        case False
        with \<open>ev = Resume r\<close> r p waiting have "step opts ev s = s"
          by (cases "status (tasks s ! p)") (simp_all add: step_def is_settled_def)
        with assms(1) show ?thesis by simp
      qed
    qed
  next
    case delivered
    then have "is_settled (status (tasks s ! r))" by simp
    from step_settled_task[OF r this] step_settled_task[OF p delivered(1)] delivered r p ne len
    show ?thesis by (simp add: awaits_def)
  qed
qed

lemma awaits_run: "awaits s r p \<Longrightarrow> awaits (run opts evs s) r p"
  unfolding run_def by (induction evs arbitrary: s) (simp_all add: awaits_step)

lemma awaits_delivered:
  assumes "awaits s r p" "is_settled (status (tasks s ! p))"
  shows "status (tasks (step opts (Resume r) s) ! r) = status (tasks s ! p)"
proof -
  from assms(1) have r: "r < length (tasks s)" and p: "p < length (tasks s)"
    by (simp_all add: awaits_def)
  consider (waiting) "status (tasks s ! r) = Running (AwaitLoading p)"
    | (delivered) "status (tasks s ! r) = status (tasks s ! p)"
    using assms(1) by (auto simp: awaits_def)
  then show ?thesis
  proof cases
    case waiting
    with r waiting have "step opts (Resume r) s = resume opts r (kind (tasks s ! r)) (AwaitLoading p) s"
      by (simp add: step_def)
    with resume_awaiting[OF p r assms(2)] show ?thesis by simp
  next
    case delivered
    with assms(2) have "is_settled (status (tasks s ! r))" by simp
    from step_settled_task[OF r this] delivered show ?thesis by simp
  qed
qed

lemma hash_instance:
  "foldl (\<lambda>hashInstance val. hashInstance @ (if val \<noteq> [] then val else [])) acc valueList
     = acc @ concat valueList"
  by (induction valueList arbitrary: acc) simp_all

lemma hash_concat: "hash digest valueList = take 8 (digest (concat valueList))"
  by (simp add: hash_def hash_instance)

lemmas demo_eval =
  run_def step_def loadModuleInternal_def startBody_def complete_def
  defaultHandleModule_def createJSModule_def callValueFactory_def transformJSCode_def
  loadDeps_def promise_all_def first_rejected_def is_rejected_def is_fulfilled_def createModule_def
  record_call_def spawn_def suspend_def fulfil_def reject_def
  demo_def demo_handler_def demo_loadModule_def demo_cached_def
  demo_getResource_def demo_resource_def from_app_def init_def Let_def

section \<open>The hashing utility: cache keys\<close>

text \<open>
  Claim C3, as amended. Equal lists of key parts give the same key. The key is the first
  eight characters of the digest of the parts put end to end, so when two triples
  (version, source, path) agree in two components and still have the same key, either
  they are the same triple or the truncated digest itself collides on two different
  texts. (Nothing separates the parts: triples that differ in two components can be the
  same text.)
\<close>

theorem hash_key_sensitivity:
  "(a = b \<longrightarrow> hash digest a = hash digest b) \<and>
   (hash digest [v, src, p] = hash digest [v', src', p'] \<and>
    ((v = v' \<and> src = src') \<or> (v = v' \<and> p = p') \<or> (src = src' \<and> p = p')) \<longrightarrow>
      [v, src, p] = [v', src', p'] \<or>
      (v @ src @ p \<noteq> v' @ src' @ p' \<and>
       take 8 (digest (v @ src @ p)) = take 8 (digest (v' @ src' @ p'))))"
  by (auto simp: hash_concat)

text \<open>
  An instance: with the identity as digest, two sources under the same eight-character
  version tag and the same path have the same key, and the two digested texts differ.
\<close>

theorem hash_key_sensitivity_witness:
  "hash (\<lambda>text. text) [''12345678'', ''a'', ''/x.js'']
     = hash (\<lambda>text. text) [''12345678'', ''b'', ''/x.js''] \<and>
   ''12345678'' @ ''a'' @ ''/x.js'' \<noteq> ''12345678'' @ ''b'' @ ''/x.js'' \<and>
   take 8 (''12345678'' @ ''a'' @ ''/x.js'') = take 8 (''12345678'' @ ''b'' @ ''/x.js'')"
  using hash_key_sensitivity[of "[''12345678'', ''a'', ''/x.js'']" "[''12345678'', ''a'', ''/x.js'']"
      "\<lambda>text. text" "''12345678''" "''a''" "''/x.js''" "''12345678''" "''b''" "''/x.js''"]
  by (simp add: hash_def)

text \<open>
  The source \<^verbatim>\<open>ab\<close> at path \<^verbatim>\<open>c\<close> and the source \<^verbatim>\<open>a\<close> at path \<^verbatim>\<open>bc\<close> differ in content and
  in path, and have the same key whatever the digest function is: the collision comes
  from the way the parts are combined.
\<close>

theorem hash_boundary_counterexample:
  "[''1.0'', ''ab'', ''c''] \<noteq> [''1.0'', ''a'', ''bc''] \<and>
   (\<forall>digest. hash digest [''1.0'', ''ab'', ''c''] = hash digest [''1.0'', ''a'', ''bc''])"
  by (simp add: hash_def)

section \<open>The cache helper\<close>

text \<open>
  Claim C4. \<^verbatim>\<open>withCache\<close> tests the string that \<^verbatim>\<open>get\<close> delivers for truthiness: a hit is a
  non-empty string. On a hit the result is \<^verbatim>\<open>JSON.parse\<close> of the cached string and the value
  factory is not invoked. On a miss the factory is invoked once; its value is returned,
  and \<^verbatim>\<open>JSON.stringify\<close> of it is stored under the hashed key exactly when the factory did
  not call \<^verbatim>\<open>preventCache\<close>; after a prevented call the cache is unchanged, so a second
  call with the same key takes the miss path again and invokes its factory. A factory
  that fails stores nothing. Without a cache instance the factory is always invoked,
  nothing is stored and the result is the factory's.
\<close>

theorem withCache_behaviour:
  "(cache (hash digest key) = Some valueStr \<and> valueStr \<noteq> [] \<longrightarrow>
      withCache digest stringify parse (Some cache) key f =
        \<lparr>returned = parse valueStr, cacheAfter = Some cache, factoryCalls = 0\<rparr>) \<and>
   (\<not> truthy (cache (hash digest key)) \<and> produced f = Inr v \<and> \<not> cachePrevented f \<longrightarrow>
      withCache digest stringify parse (Some cache) key f =
        \<lparr>returned = Inr v, cacheAfter = Some (cache(hash digest key \<mapsto> stringify v)),
         factoryCalls = 1\<rparr>) \<and>
   (\<not> truthy (cache (hash digest key)) \<and> produced f = Inr v \<and> cachePrevented f \<longrightarrow>
      withCache digest stringify parse (Some cache) key f =
        \<lparr>returned = Inr v, cacheAfter = Some cache, factoryCalls = 1\<rparr> \<and>
      withCache digest stringify parse
          (cacheAfter (withCache digest stringify parse (Some cache) key f)) key g =
        computeAndStore stringify cache (hash digest key) g \<and>
      factoryCalls (withCache digest stringify parse
          (cacheAfter (withCache digest stringify parse (Some cache) key f)) key g) = 1) \<and>
   (\<not> truthy (cache (hash digest key)) \<and> produced f = Inl ex \<longrightarrow>
      withCache digest stringify parse (Some cache) key f =
        \<lparr>returned = Inl ex, cacheAfter = Some cache, factoryCalls = 1\<rparr>) \<and>
   withCache digest stringify parse None key f =
     \<lparr>returned = produced f, cacheAfter = None, factoryCalls = 1\<rparr>"
  by (auto simp: withCache_def computeAndStore_def truthy_def Let_def
           split: option.splits sum.splits)

text \<open>
  Instances, with the identity for the digest and for the encoding: a hit on the key
  \<^verbatim>\<open>k\<close>; a miss whose value is stored; a prevented miss followed by a second call that
  invokes its factory; a failing factory.
\<close>

theorem withCache_behaviour_witness:
  "withCache (\<lambda>t. t) (\<lambda>v. v) Inr (Some [''k'' \<mapsto> ''old'']) [''k'']
       \<lparr>cachePrevented = False, produced = Inr ''new''\<rparr>
     = \<lparr>returned = Inr ''old'', cacheAfter = Some [''k'' \<mapsto> ''old''], factoryCalls = 0\<rparr> \<and>
   withCache (\<lambda>t. t) (\<lambda>v. v) Inr (Some Map.empty) [''k'']
       \<lparr>cachePrevented = False, produced = Inr ''new''\<rparr>
     = \<lparr>returned = Inr ''new'', cacheAfter = Some [''k'' \<mapsto> ''new''], factoryCalls = 1\<rparr> \<and>
   withCache (\<lambda>t. t) (\<lambda>v. v) Inr (Some Map.empty) [''k'']
       \<lparr>cachePrevented = True, produced = Inr ''new''\<rparr>
     = \<lparr>returned = Inr ''new'', cacheAfter = Some Map.empty, factoryCalls = 1\<rparr> \<and>
   factoryCalls (withCache (\<lambda>t. t) (\<lambda>v. v) Inr
       (cacheAfter (withCache (\<lambda>t. t) (\<lambda>v. v) Inr (Some Map.empty) [''k'']
          \<lparr>cachePrevented = True, produced = Inr ''new''\<rparr>)) [''k'']
       \<lparr>cachePrevented = False, produced = Inr ''newer''\<rparr>) = 1 \<and>
   withCache (\<lambda>t. t) (\<lambda>v. v) Inr (Some Map.empty) [''k'']
       \<lparr>cachePrevented = False, produced = Inl (Thrown 1)\<rparr>
     = \<lparr>returned = Inl (Thrown 1), cacheAfter = Some Map.empty, factoryCalls = 1\<rparr>"
  using
    withCache_behaviour[of "[''k'' \<mapsto> ''old'']" "\<lambda>t. t" "[''k'']" "''old''" "\<lambda>v. v" Inr
      "\<lparr>cachePrevented = False, produced = Inr ''new''\<rparr>" "''new''"]
    withCache_behaviour[of Map.empty "\<lambda>t. t" "[''k'']" "''old''" "\<lambda>v. v" Inr
      "\<lparr>cachePrevented = False, produced = Inr ''new''\<rparr>" "''new''"]
    withCache_behaviour[of Map.empty "\<lambda>t. t" "[''k'']" "''old''" "\<lambda>v. v" Inr
      "\<lparr>cachePrevented = True, produced = Inr ''new''\<rparr>" "''new''"
      "\<lparr>cachePrevented = False, produced = Inr ''newer''\<rparr>"]
    withCache_behaviour[of Map.empty "\<lambda>t. t" "[''k'']" "''old''" "\<lambda>v. v" Inr
      "\<lparr>cachePrevented = False, produced = Inl (Thrown 1)\<rparr>" "''new''" _ "Thrown 1"]
  by (simp add: hash_def truthy_def withCache_def computeAndStore_def)

section \<open>The synchronous lookup\<close>

text \<open>
  What \<^verbatim>\<open>require\<close> does: it returns whatever the module cache holds for the identity, and
  fails with \<^verbatim>\<open><id> not found in moduleCache\<close> only when the cache holds nothing for it.
\<close>

lemma require_entry:
  "getResource opts \<lparr>refPath = path, relPath = rel\<rparr> = Inr res \<Longrightarrow>
   require opts path cache rel =
     (case cache (res_id res) of
        Some e \<Rightarrow> Inr e
      | None \<Rightarrow> Inl (Error (res_id res @ '' not found in moduleCache'')))"
  by (simp add: require_def)

text \<open>
  Claim C5 says that \<^verbatim>\<open>require\<close> fails with "not found" whenever the identity has no
  resolved entry, also when its entry is still pending. The function tests only
  \<^verbatim>\<open>id in moduleCache\<close> (line 307), where \<^verbatim>\<open>loadModuleInternal\<close> goes on to test
  \<^verbatim>\<open>instanceof Loading\<close> (line 253): for a pending identity it returns the
  \<^verbatim>\<open>Loading\<close> placeholder itself. Here \<^verbatim>\<open>/app/a.js\<close> is being loaded by task 0.
\<close>

theorem require_pending_returns_placeholder:
  "require demo ''/app/'' [''/app/a.js'' \<mapsto> Loading 0] ''./a.js'' = Inr (Loading 0)"
  by (simp add: require_def demo_def demo_getResource_def demo_resource_def)

section \<open>Runs\<close>

lemma run_append: "run opts (evs @ evs') s = run opts evs' (run opts evs s)"
  by (simp add: run_def)

lemma run_Cons: "run opts (ev # evs) s = run opts evs (step opts ev s)"
  by (simp add: run_def)

lemma reachable_append:
  "state_ok opts (run opts evs' (run opts evs (init preloaded st)))"
  "calls_inv (run opts evs' (run opts evs (init preloaded st)))"
  using reachable_ok[of opts "evs @ evs'" preloaded st] by (simp_all add: run_append)

lemma state_ok_bodiesStarted: "state_ok opts s \<Longrightarrow> bodiesStarted s i \<le> 1"
  by (rule bodiesStarted_le_1) (auto simp: state_ok_def dest: consistent_unique)

lemma failed_entry_final:
  assumes "state_ok opts s" "moduleCache s i = Some (Loading p)" "status (tasks s ! p) = Rejected ex"
  shows "final_entry s (Loading p)" "p < length (tasks s)"
proof -
  from assms(1,2) have "is_body (tasks s) p i"
    by (simp add: state_ok_def consistent_cache)
  then show "p < length (tasks s)" by (rule is_body_lt)
  with assms(3) show "final_entry s (Loading p)"
    by (simp add: final_entry_def is_settled_def)
qed




lemma is_body_run:
  assumes "is_body (tasks s) b i"
  shows "is_body (tasks (run opts evs s)) b i"
  using assms run_kind[of b s opts evs] by (auto simp: is_body_def)

lemma call_on_pending:
  assumes "getResource opts pc = Inr res" "moduleCache s (res_id res) = Some (Loading p)"
  shows "tasks (step opts (Call pc) s) =
           tasks s @ [\<lparr>kind = Request pc, status = Running (AwaitLoading p)\<rparr>]"
    and "calls (step opts (Call pc) s) = calls s @ [CGetResource pc]"
    and "moduleCache (step opts (Call pc) s) = moduleCache s"
  using assms by (simp_all add: step_def loadModuleInternal_def)


lemma resume_running:
  "t < length (tasks s) \<Longrightarrow> status (tasks s ! t) = Running c \<Longrightarrow>
   step opts (Resume t) s = resume opts t (kind (tasks s ! t)) c s"
  by (simp add: step_def)

lemma no_calls_before_load:
  assumes ok: "state_ok opts s" and ci: "calls_inv s" and none: "moduleCache s i = None"
  shows "calls_for i s = []"
proof -
  have "call_id c \<noteq> Some i" if "c \<in> set (calls s)" for c
  proof
    assume "call_id c = Some i"
    from calls_ok_body[OF ci[unfolded calls_inv_def] this that]
    obtain b where "is_body (tasks s) b i" by blast
    with consistent_no_body[OF ok[unfolded state_ok_def] none] show False by blast
  qed
  then show ?thesis by (simp add: calls_for_def filter_empty_conv)
qed

lemma short_circuit_step:
  assumes sc: "short_circuit opts b res v x" and v: "v \<noteq> Undefined"
  shows "short_circuit opts b res v (step opts ev x)"
    and "ev = Resume b \<Longrightarrow> status (tasks (step opts ev x) ! b) = Fulfilled v \<and>
           moduleCache (step opts ev x) (res_id res) = Some (Value v)"
proof -
  from sc have ok: "state_ok opts x" and b: "b < length (tasks x)"
    and k: "kind (tasks x ! b) = LoadBody res"
    and cf: "calls_for (res_id res) x = [CLoadModule (res_id res)]"
    by (simp_all add: short_circuit_def)
  have ok': "state_ok opts (step opts ev x)" using ok by (rule state_ok_step)
  have b': "b < length (tasks (step opts ev x))" using b step_length[of x opts ev] by simp
  have k': "kind (tasks (step opts ev x) ! b) = LoadBody res" using step_kind[OF b] k by simp
  consider (pending) "status (tasks x ! b) = Running (AwaitLoadModule (Inr v))"
      "moduleCache x (res_id res) = Some (Loading b)"
    | (resolved) "status (tasks x ! b) = Fulfilled v" "moduleCache x (res_id res) = Some (Value v)"
    using sc by (auto simp: short_circuit_def)
  then have "short_circuit opts b res v (step opts ev x) \<and>
    (ev = Resume b \<longrightarrow> status (tasks (step opts ev x) ! b) = Fulfilled v \<and>
           moduleCache (step opts ev x) (res_id res) = Some (Value v))"
  proof cases
    case resolved
    have f: "final_entry x (Value v)" by (simp add: final_entry_def)
    from final_step[OF ok resolved(2) f, of ev] step_settled_task[OF b, of opts ev] resolved(1)
    have "moduleCache (step opts ev x) (res_id res) = Some (Value v)"
      "calls_for (res_id res) (step opts ev x) = [CLoadModule (res_id res)]"
      "status (tasks (step opts ev x) ! b) = Fulfilled v"
      using cf by (simp_all add: is_settled_def)
    with ok' b' k' show ?thesis by (auto simp: short_circuit_def)
  next
    case pending
    show ?thesis
    proof (cases "ev = Resume b")
      case True
      with b pending(1) k v have "step opts ev x =
          fulfil b v (x\<lparr>moduleCache := (moduleCache x)(res_id res \<mapsto> Value v)\<rparr>)"
        by (simp add: resume_running)
      with b ok' b' k' cf show ?thesis
        using True by (simp add: short_circuit_def)
    next
      case False
      have "res_id res \<notin> ev_ids x ev"
      proof
        assume "res_id res \<in> ev_ids x ev"
        then obtain t res' c where t: "ev = Resume t" "t < length (tasks x)"
            "kind (tasks x ! t) = LoadBody res'" "res_id res' = res_id res"
          by (auto simp: ev_ids_def split: event.splits if_splits kind.splits status.splits)
        then have "is_body (tasks x) t (res_id res)" "is_body (tasks x) b (res_id res)"
          using b k by (auto simp: is_body_def)
        from consistent_unique[OF ok[unfolded state_ok_def] this] t(1) False show False by simp
      qed
      with changes_only_step[of x opts ev] pending(2)
      have "moduleCache (step opts ev x) (res_id res) = Some (Loading b)"
        "calls_for (res_id res) (step opts ev x) = calls_for (res_id res) x"
        by (simp_all add: changes_only_def)
      with step_other_task[OF b False, of opts] pending(1) ok' b' k' cf False show ?thesis
        by (simp add: short_circuit_def)
    qed
  qed
  then show "short_circuit opts b res v (step opts ev x)"
    and "ev = Resume b \<Longrightarrow> status (tasks (step opts ev x) ! b) = Fulfilled v \<and>
           moduleCache (step opts ev x) (res_id res) = Some (Value v)"
    by blast+
qed

lemma short_circuit_run:
  "short_circuit opts b res v x \<Longrightarrow> v \<noteq> Undefined \<Longrightarrow> short_circuit opts b res v (run opts evs x)"
  unfolding run_def by (induction evs arbitrary: x) (simp_all add: short_circuit_step)

section \<open>Module cache entries are final\<close>

lemma entry_transition:
  assumes ok: "state_ok opts s" and e: "moduleCache s i = Some (Loading p)"
  shows "moduleCache (run opts evs s) i = Some (Loading p) \<or>
         (\<exists>v. moduleCache (run opts evs s) i = Some (Value v) \<and>
              status (tasks (run opts evs s) ! p) = Fulfilled v)"
proof -
  from ok e have b: "is_body (tasks s) p i" by (simp add: state_ok_def consistent_cache)
  then have b': "is_body (tasks (run opts evs s)) p i" by (rule is_body_run)
  have "state_ok opts (run opts evs s)" using ok by (rule state_ok_run)
  from consistent_body[OF this[unfolded state_ok_def] b'] show ?thesis
    by (cases "status (tasks (run opts evs s) ! p)") (simp_all add: body_ok_def)
qed

text \<open>
  Claim C9. In every state \<open>s\<close> a session can reach, under any schedule, and every state
  \<open>s'\<close> reached from it: at most one load body, hence at most one \<^verbatim>\<open>Loading\<close> entry, has
  ever been created for an identity; an entry that holds an export still holds that
  export; an entry whose load has failed (a \<^verbatim>\<open>Loading\<close> whose promise is rejected) is still
  that entry, rejected with the same error; an entry that is still \<^verbatim>\<open>Loading\<close> is either that
  same entry or has been replaced, once, by the value its own promise was fulfilled with.
  No entry is ever removed.
\<close>

theorem cache_entry_immutable:
  "let s = run opts evs (init preloaded st); s' = run opts evs' s in
     bodiesStarted s' i \<le> 1 \<and>
     (\<forall>v. moduleCache s i = Some (Value v) \<longrightarrow> moduleCache s' i = Some (Value v)) \<and>
     (\<forall>p ex. moduleCache s i = Some (Loading p) \<and> status (tasks s ! p) = Rejected ex \<longrightarrow>
        moduleCache s' i = Some (Loading p) \<and> status (tasks s' ! p) = Rejected ex) \<and>
     (\<forall>p. moduleCache s i = Some (Loading p) \<longrightarrow>
        moduleCache s' i = Some (Loading p) \<or>
        (\<exists>v. moduleCache s' i = Some (Value v) \<and> status (tasks s' ! p) = Fulfilled v)) \<and>
     (moduleCache s i \<noteq> None \<longrightarrow> moduleCache s' i \<noteq> None)"
proof -
  define s where "s = run opts evs (init preloaded st)"
  define s' where "s' = run opts evs' s"
  have ok: "state_ok opts s" "state_ok opts s'"
    unfolding s_def s'_def using reachable_ok reachable_append by blast+
  have 1: "bodiesStarted s' i \<le> 1" using ok(2) by (rule state_ok_bodiesStarted)
  have 2: "moduleCache s' i = Some (Value v)" if "moduleCache s i = Some (Value v)" for v
    using final_run[OF ok(1) that, where evs = evs'] by (simp add: final_entry_def s'_def)
  have 3: "moduleCache s' i = Some (Loading p) \<and> status (tasks s' ! p) = Rejected ex"
    if "moduleCache s i = Some (Loading p)" "status (tasks s ! p) = Rejected ex" for p ex
  proof -
    note f = failed_entry_final[OF ok(1) that]
    from final_run[OF ok(1) that(1) f(1), where evs = evs'] have "moduleCache s' i = Some (Loading p)"
      by (simp add: s'_def)
    moreover from run_settled_task[OF f(2), where opts = opts and evs = evs'] that(2)
    have "status (tasks s' ! p) = Rejected ex" by (simp add: s'_def is_settled_def)
    ultimately show ?thesis ..
  qed
  have 4: "moduleCache s' i = Some (Loading p) \<or>
        (\<exists>v. moduleCache s' i = Some (Value v) \<and> status (tasks s' ! p) = Fulfilled v)"
    if "moduleCache s i = Some (Loading p)" for p
    using entry_transition[OF ok(1) that, where evs = evs'] by (simp add: s'_def)
  have 5: "moduleCache s' i \<noteq> None" if "moduleCache s i \<noteq> None"
  proof -
    from that obtain en where en: "moduleCache s i = Some en" by blast
    show ?thesis
    proof (cases en)
      case (Value v)
      with 2 en show ?thesis by simp
    next
      case (Loading p)
      with 4 en show ?thesis by auto
    qed
  qed
  from 1 2 3 4 5 show ?thesis unfolding s_def s'_def Let_def by blast
qed

text \<open>
  An instance: \<^verbatim>\<open>/app/a.js\<close> fails to load; later loads of it change neither its entry nor
  the error.
\<close>

theorem cache_entry_immutable_witness:
  "moduleCache (run demo [Call (from_app ''./a.js''), Resume 0] (init Map.empty Map.empty)) ''/app/a.js''
     = Some (Loading 0) \<and>
   status (tasks (run demo [Call (from_app ''./a.js''), Resume 0] (init Map.empty Map.empty)) ! 0)
     = Rejected (Thrown 1) \<and>
   moduleCache (run demo [Call (from_app ''./a.js''), Resume 2, Resume 0]
       (run demo [Call (from_app ''./a.js''), Resume 0] (init Map.empty Map.empty))) ''/app/a.js''
     = Some (Loading 0) \<and>
   status (tasks (run demo [Call (from_app ''./a.js''), Resume 2, Resume 0]
       (run demo [Call (from_app ''./a.js''), Resume 0] (init Map.empty Map.empty))) ! 0)
     = Rejected (Thrown 1) \<and>
   bodiesStarted (run demo [Call (from_app ''./a.js''), Resume 2, Resume 0]
       (run demo [Call (from_app ''./a.js''), Resume 0] (init Map.empty Map.empty))) ''/app/a.js'' \<le> 1"
  using cache_entry_immutable[of demo "[Call (from_app ''./a.js''), Resume 0]" Map.empty Map.empty
      "[Call (from_app ''./a.js''), Resume 2, Resume 0]" "''/app/a.js''"]
  by (simp add: demo_eval)

section \<open>Single flight\<close>



section \<open>Failures are memoized\<close>

text \<open>
  Claim C2, as amended. After the load of an identity has failed, a later request for it
  resolves its reference (\<^verbatim>\<open>getResource\<close> is called, which is how the identity is known)
  and does nothing else: whenever the request is resumed, after any other events, it is
  rejected with the retained error; no collaborator has been invoked for the identity in
  between (\<^verbatim>\<open>loadModule\<close>, content fetch, handlers: the fetch counter does not move), and the
  entry is still the failed one.
\<close>

theorem failure_memoized:
  "let s = run opts evs (init preloaded st) in
     moduleCache s i = Some (Loading p) \<and> status (tasks s ! p) = Rejected ex \<and>
     getResource opts pc = Inr res \<and> res_id res = i \<longrightarrow>
     (let s1 = step opts (Call pc) s;
          r = length (tasks s);
          s2 = step opts (Resume r) (run opts evs' s1)
      in calls s1 = calls s @ [CGetResource pc] \<and>
         status (tasks s2 ! r) = Rejected ex \<and>
         calls_for i s2 = calls_for i s \<and>
         moduleCache s2 i = Some (Loading p) \<and>
         status (tasks s2 ! p) = Rejected ex)"
proof -
  define s where "s = run opts evs (init preloaded st)"
  have ok: "state_ok opts s" unfolding s_def using reachable_ok by blast
  have main: "calls (step opts (Call pc) s) = calls s @ [CGetResource pc] \<and>
      status (tasks (step opts (Resume (length (tasks s))) (run opts evs' (step opts (Call pc) s)))
                ! length (tasks s)) = Rejected ex \<and>
      calls_for i (step opts (Resume (length (tasks s))) (run opts evs' (step opts (Call pc) s)))
        = calls_for i s \<and>
      moduleCache (step opts (Resume (length (tasks s))) (run opts evs' (step opts (Call pc) s))) i
        = Some (Loading p) \<and>
      status (tasks (step opts (Resume (length (tasks s))) (run opts evs' (step opts (Call pc) s)))
                ! p) = Rejected ex"
    if e: "moduleCache s i = Some (Loading p)" and rej: "status (tasks s ! p) = Rejected ex"
      and res: "getResource opts pc = Inr res" "res_id res = i"
  proof -
    let ?r = "length (tasks s)"
    let ?s1 = "step opts (Call pc) s"
    let ?x = "run opts evs' ?s1"
    let ?s2 = "step opts (Resume ?r) ?x"
    note f = failed_entry_final[OF ok e rej]
    from res e have e': "moduleCache s (res_id res) = Some (Loading p)" by simp
    note c = call_on_pending[OF res(1) e']
    have s2: "?s2 = run opts (Call pc # evs' @ [Resume ?r]) s"
      by (simp add: run_Cons run_append) (simp add: run_def)
    have aw: "awaits ?s1 ?r p"
      using f(2) by (simp add: awaits_def c nth_append)
    have p1: "status (tasks ?s1 ! p) = Rejected ex"
      using f(2) rej by (simp add: c nth_append)
    have awx: "awaits ?x ?r p" using aw by (rule awaits_run)
    have px: "status (tasks ?x ! p) = Rejected ex"
      using run_settled_task[of p ?s1 opts evs'] p1 f(2) by (simp add: c is_settled_def)
    have "status (tasks ?s2 ! ?r) = status (tasks ?x ! p)"
      using awx by (rule awaits_delivered) (simp add: px is_settled_def)
    with px have 1: "status (tasks ?s2 ! ?r) = Rejected ex" by simp
    from final_run[OF ok e f(1), where evs = "Call pc # evs' @ [Resume ?r]"]
    have 2: "moduleCache ?s2 i = Some (Loading p)" "calls_for i ?s2 = calls_for i s"
      unfolding s2 by simp_all
    from run_settled_task[OF f(2), where opts = opts and evs = "Call pc # evs' @ [Resume ?r]"] rej
    have 3: "status (tasks ?s2 ! p) = Rejected ex"
      unfolding s2 by (simp add: is_settled_def)
    from c(2) 1 2 3 show ?thesis by simp
  qed
  show ?thesis
    unfolding Let_def s_def[symmetric] using main by blast
qed

text \<open>
  An instance: \<^verbatim>\<open>/app/a.js\<close> has failed; a second request, resumed after another load has
  been started, is rejected with the same error, and the only call ever made for the
  identity is the one fetch.
\<close>

theorem failure_memoized_witness:
  "moduleCache (run demo [Call (from_app ''./a.js''), Resume 0, Resume 1] (init Map.empty Map.empty))
      ''/app/a.js'' = Some (Loading 0) \<and>
   status (tasks (run demo [Call (from_app ''./a.js''), Resume 0, Resume 1] (init Map.empty Map.empty)) ! 0)
      = Rejected (Thrown 1) \<and>
   getResource demo (from_app ''./a.js'')
      = Inr \<lparr>res_id = ''/app/a.js'', res_path = ''/app/a.js'', getContent = Inl (Thrown 1)\<rparr> \<and>
   calls (step demo (Call (from_app ''./a.js''))
       (run demo [Call (from_app ''./a.js''), Resume 0, Resume 1] (init Map.empty Map.empty)))
     = calls (run demo [Call (from_app ''./a.js''), Resume 0, Resume 1] (init Map.empty Map.empty))
       @ [CGetResource (from_app ''./a.js'')] \<and>
   status (tasks (step demo (Resume 2) (run demo [Call (from_app ''./b.js'')]
       (step demo (Call (from_app ''./a.js''))
         (run demo [Call (from_app ''./a.js''), Resume 0, Resume 1] (init Map.empty Map.empty))))) ! 2)
     = Rejected (Thrown 1) \<and>
   calls_for ''/app/a.js'' (step demo (Resume 2) (run demo [Call (from_app ''./b.js'')]
       (step demo (Call (from_app ''./a.js''))
         (run demo [Call (from_app ''./a.js''), Resume 0, Resume 1] (init Map.empty Map.empty)))))
     = [CGetContent ''/app/a.js'']"
  using failure_memoized[of demo "[Call (from_app ''./a.js''), Resume 0, Resume 1]" Map.empty Map.empty
      "''/app/a.js''" 0 "Thrown 1" "from_app ''./a.js''"
      "\<lparr>res_id = ''/app/a.js'', res_path = ''/app/a.js'', getContent = Inl (Thrown 1)\<rparr>"
      "[Call (from_app ''./b.js'')]"]
  by (simp add: demo_eval calls_for_def)

text \<open>
  The second request for the failed \<^verbatim>\<open>/app/a.js\<close> does invoke resolution again:
  \<^verbatim>\<open>getResource\<close> has been called twice for the reference, \<^verbatim>\<open>getContent\<close> once.
\<close>

theorem failure_resolves_again_counterexample:
  "status (tasks (run demo [Call (from_app ''./a.js''), Resume 0, Resume 1] (init Map.empty Map.empty)) ! 1)
      = Rejected (Thrown 1) \<and>
   count_list (calls (run demo [Call (from_app ''./a.js''), Resume 0, Resume 1]
      (init Map.empty Map.empty))) (CGetResource (from_app ''./a.js'')) = 1 \<and>
   status (tasks (run demo [Call (from_app ''./a.js''), Resume 0, Resume 1,
      Call (from_app ''./a.js''), Resume 2] (init Map.empty Map.empty)) ! 2) = Rejected (Thrown 1) \<and>
   count_list (calls (run demo [Call (from_app ''./a.js''), Resume 0, Resume 1,
      Call (from_app ''./a.js''), Resume 2] (init Map.empty Map.empty)))
      (CGetResource (from_app ''./a.js'')) = 2 \<and>
   count_list (calls (run demo [Call (from_app ''./a.js''), Resume 0, Resume 1,
      Call (from_app ''./a.js''), Resume 2] (init Map.empty Map.empty)))
      (CGetContent ''/app/a.js'') = 1"
  by (simp add: demo_eval)

section \<open>Null is an export\<close>



section \<open>A loadModule callback that answers\<close>

text \<open>
  Claim C10. When an identity has no entry and the \<^verbatim>\<open>loadModule\<close> callback answers for it
  with a value other than \<^verbatim>\<open>undefined\<close>: the call resolves the reference and invokes the
  callback; when the body is resumed, after any other events, the value is stored as the
  entry; the request, resumed after any further events, is fulfilled with the value; and
  the callback is the only collaborator ever invoked for the identity: no content fetch,
  no caller-supplied handler, no built-in dispatch.
\<close>

theorem loadModule_short_circuit:
  "let s = run opts evs (init preloaded st) in
     moduleCache s i = None \<and> loadModule opts = Some lm \<and> lm i = Inr v \<and> v \<noteq> Undefined \<and>
     getResource opts pc = Inr res \<and> res_id res = i \<longrightarrow>
     (let b = length (tasks s);
          r = Suc b;
          s1 = step opts (Call pc) s;
          s2 = step opts (Resume b) (run opts evs1 s1);
          s3 = step opts (Resume r) (run opts evs2 s2)
      in calls s1 = calls s @ [CGetResource pc, CLoadModule i] \<and>
         kind (tasks s1 ! r) = Request pc \<and>
         moduleCache s2 i = Some (Value v) \<and>
         moduleCache s3 i = Some (Value v) \<and>
         status (tasks s3 ! r) = Fulfilled v \<and>
         calls_for i s3 = [CLoadModule i])"
proof -
  define s where "s = run opts evs (init preloaded st)"
  have ok: "state_ok opts s" and ci: "calls_inv s"
    unfolding s_def using reachable_ok by blast+
  have main:
    "calls (step opts (Call pc) s) = calls s @ [CGetResource pc, CLoadModule i] \<and>
     kind (tasks (step opts (Call pc) s) ! Suc (length (tasks s))) = Request pc \<and>
     moduleCache (step opts (Resume (length (tasks s))) (run opts evs1 (step opts (Call pc) s))) i
       = Some (Value v) \<and>
     moduleCache (step opts (Resume (Suc (length (tasks s))))
        (run opts evs2 (step opts (Resume (length (tasks s))) (run opts evs1 (step opts (Call pc) s))))) i
       = Some (Value v) \<and>
     status (tasks (step opts (Resume (Suc (length (tasks s))))
        (run opts evs2 (step opts (Resume (length (tasks s))) (run opts evs1 (step opts (Call pc) s)))))
        ! Suc (length (tasks s))) = Fulfilled v \<and>
     calls_for i (step opts (Resume (Suc (length (tasks s))))
        (run opts evs2 (step opts (Resume (length (tasks s))) (run opts evs1 (step opts (Call pc) s)))))
       = [CLoadModule i]"
    if none: "moduleCache s i = None" and lm: "loadModule opts = Some lm" "lm i = Inr v"
      and v: "v \<noteq> Undefined" and res: "getResource opts pc = Inr res" "res_id res = i"
  proof -
    let ?b = "length (tasks s)"
    let ?r = "Suc ?b"
    let ?s1 = "step opts (Call pc) s"
    let ?x1 = "run opts evs1 ?s1"
    let ?s2 = "step opts (Resume ?b) ?x1"
    let ?x2 = "run opts evs2 ?s2"
    let ?s3 = "step opts (Resume ?r) ?x2"
    have t1: "tasks ?s1 = tasks s @ [\<lparr>kind = LoadBody res, status = Running (AwaitLoadModule (Inr v))\<rparr>,
                \<lparr>kind = Request pc, status = Running (AwaitLoading ?b)\<rparr>]"
      and c1: "calls ?s1 = calls s @ [CGetResource pc, CLoadModule i]"
      and m1: "moduleCache ?s1 i = Some (Loading ?b)"
      using none lm res by (simp_all add: step_def loadModuleInternal_def startBody_def Let_def)
    have cf: "calls_for i ?s1 = [CLoadModule i]"
      using no_calls_before_load[OF ok ci none] by (simp add: calls_for_def c1)
    have sc1: "short_circuit opts ?b res v ?s1"
      using state_ok_step[OF ok, of "Call pc"] cf m1 res(2)
      by (simp add: short_circuit_def t1 nth_append)
    have scx1: "short_circuit opts ?b res v ?x1" using sc1 v by (rule short_circuit_run)
    have sc2: "short_circuit opts ?b res v ?s2" using scx1 v by (rule short_circuit_step)
    have b2: "status (tasks ?s2 ! ?b) = Fulfilled v" "moduleCache ?s2 i = Some (Value v)"
      using short_circuit_step(2)[OF scx1 v, of "Resume ?b"] res(2) by simp_all
    have ok2: "state_ok opts ?s2" using sc2 by (simp add: short_circuit_def)
    have f2: "final_entry ?s2 (Value v)" by (simp add: final_entry_def)
    have s3: "?s3 = run opts (evs2 @ [Resume ?r]) ?s2"
      by (simp add: run_append) (simp add: run_def)
    from final_run[OF ok2 b2(2) f2, where evs = "evs2 @ [Resume ?r]"]
    have m3: "moduleCache ?s3 i = Some (Value v)" "calls_for i ?s3 = calls_for i ?s2"
      unfolding s3 by simp_all
    have cf2: "calls_for i ?s2 = [CLoadModule i]"
      using sc2 res(2) by (simp add: short_circuit_def)
    have aw1: "awaits ?s1 ?r ?b" by (simp add: awaits_def t1 nth_append)
    have aw: "awaits ?x2 ?r ?b"
      by (rule awaits_run[OF awaits_step[OF awaits_run[OF aw1]]])
    have lb: "?b < length (tasks ?s2)" using sc2 by (simp add: short_circuit_def)
    from run_settled_task[OF lb, where opts = opts and evs = evs2] b2(1)
    have bx2: "status (tasks ?x2 ! ?b) = Fulfilled v" by (simp add: is_settled_def)
    have "status (tasks ?s3 ! ?r) = status (tasks ?x2 ! ?b)"
      using aw by (rule awaits_delivered) (simp add: bx2 is_settled_def)
    with bx2 have r3: "status (tasks ?s3 ! ?r) = Fulfilled v" by simp
    have k1: "kind (tasks ?s1 ! ?r) = Request pc" by (simp add: t1 nth_append)
    from c1 k1 b2(2) m3 r3 cf2 show ?thesis by simp
  qed
  show ?thesis
    unfolding Let_def s_def[symmetric] using main by blast
qed

text \<open>
  An instance: the callback supplies \<^verbatim>\<open>/app/m.js\<close>, while another load is started and
  fails in between.
\<close>

theorem loadModule_short_circuit_witness:
  "moduleCache (run demo_loadModule [] (init Map.empty Map.empty)) ''/app/m.js'' = None \<and>
   calls (step demo_loadModule (Call (from_app ''./m.js''))
       (run demo_loadModule [] (init Map.empty Map.empty)))
     = [CGetResource (from_app ''./m.js''), CLoadModule ''/app/m.js''] \<and>
   moduleCache (step demo_loadModule (Resume 0) (run demo_loadModule [Call (from_app ''./a.js''), Resume 2]
       (step demo_loadModule (Call (from_app ''./m.js''))
         (run demo_loadModule [] (init Map.empty Map.empty))))) ''/app/m.js''
     = Some (Value (Obj 3)) \<and>
   status (tasks (step demo_loadModule (Resume 1) (run demo_loadModule [Resume 2]
       (step demo_loadModule (Resume 0) (run demo_loadModule [Call (from_app ''./a.js''), Resume 2]
         (step demo_loadModule (Call (from_app ''./m.js''))
           (run demo_loadModule [] (init Map.empty Map.empty))))))) ! 1)
     = Fulfilled (Obj 3) \<and>
   calls_for ''/app/m.js'' (step demo_loadModule (Resume 1) (run demo_loadModule [Resume 2]
       (step demo_loadModule (Resume 0) (run demo_loadModule [Call (from_app ''./a.js''), Resume 2]
         (step demo_loadModule (Call (from_app ''./m.js''))
           (run demo_loadModule [] (init Map.empty Map.empty)))))))
     = [CLoadModule ''/app/m.js'']"
proof -
  have h: "moduleCache (run demo_loadModule [] (init Map.empty Map.empty)) ''/app/m.js'' = None \<and>
     loadModule demo_loadModule = Some (\<lambda>i. if i = ''/app/m.js'' then Inr (Obj 3) else Inr Undefined) \<and>
     (\<lambda>i. if i = ''/app/m.js'' then Inr (Obj 3) else Inr Undefined) ''/app/m.js'' = Inr (Obj 3) \<and>
     Obj 3 \<noteq> Undefined \<and>
     getResource demo_loadModule (from_app ''./m.js'')
       = Inr (demo_resource ''/app/m.js'' (Inr (Str ''import n, a, b'', ''.js''))) \<and>
     res_id (demo_resource ''/app/m.js'' (Inr (Str ''import n, a, b'', ''.js''))) = ''/app/m.js''"
    by (simp add: demo_eval)
  have l: "length (tasks (run demo_loadModule [] (init Map.empty Map.empty))) = 0"
    "calls (run demo_loadModule [] (init Map.empty Map.empty)) = []"
    by (simp_all add: demo_eval)
  from loadModule_short_circuit[where opts = demo_loadModule and evs = "[]" and preloaded = Map.empty
      and st = Map.empty and i = "''/app/m.js''"
      and lm = "\<lambda>i. if i = ''/app/m.js'' then Inr (Obj 3) else Inr Undefined" and v = "Obj 3"
      and pc = "from_app ''./m.js''"
      and res = "demo_resource ''/app/m.js'' (Inr (Str ''import n, a, b'', ''.js''))"
      and ?evs1.0 = "[Call (from_app ''./a.js''), Resume 2]" and ?evs2.0 = "[Resume 2]",
      unfolded Let_def l, THEN mp, OF h] h
  show ?thesis by simp
qed

section \<open>Dispatch by extension\<close>




section \<open>Loading the dependencies\<close>








end
